theory Spec2Isabelle
  imports Complex_Main
begin

section \<open>Exceptions and outcomes of awaited calls\<close>

text \<open>
  The exceptions that matter to the control flow of \<^verbatim>\<open>utils/manager.py\<close>.
  \<^verbatim>\<open>asyncio.CancelledError\<close> derives from \<^verbatim>\<open>BaseException\<close>, so a handler
  \<^verbatim>\<open>except Exception\<close> does not catch it; every other exception here derives from
  \<^verbatim>\<open>Exception\<close>.
\<close>

datatype exc =
  DuplicateKeyError
  | ZeroDivisionError
  | TimeoutError
  | KeyError
  | ValueError
  | OtherError string
  | CancelledError

fun is_Exception :: "exc \<Rightarrow> bool" where
  "is_Exception CancelledError = False"
| "is_Exception _ = True"

section \<open>Item processing: \<^verbatim>\<open>save_artwork\<close> and \<^verbatim>\<open>process_artwork\<close>\<close>

text \<open>
  What the collaborators of one attempt do (the adapter, the rate limiter, the sink and the
  event loop are outside the manager): each awaited call either returns or raises.
  \<^item> \<open>acquire_r\<close>: \<^verbatim>\<open>await self.rate_limiter.acquire(museum_name)\<close>, \<open>None\<close> when it returns;
  \<^item> \<open>fetch_r\<close>: \<^verbatim>\<open>await crawler.get_artwork_data(artwork_id)\<close>, \<open>Inr False\<close> when it
    returns \<^verbatim>\<open>None\<close> (not found), \<open>Inr True\<close> when it returns a payload;
  \<^item> \<open>transform_r\<close>: \<^verbatim>\<open>crawler.transform_data(raw_data)\<close>, \<open>Inr False\<close> when it returns
    \<^verbatim>\<open>None\<close>;
  \<^item> \<open>upsert_r\<close>: the body of the \<^verbatim>\<open>try\<close> in \<^verbatim>\<open>save_artwork\<close> (the
    \<^verbatim>\<open>update_one\<close> with \<^verbatim>\<open>upsert=True\<close>);
  \<^item> \<open>sleep_r\<close>: \<^verbatim>\<open>await asyncio.sleep(2 ** attempt)\<close>, which only a cancellation interrupts.
\<close>

record attempt =
  acquire_r :: "exc option"
  fetch_r :: "exc + bool"
  transform_r :: "exc + bool"
  upsert_r :: "exc option"
  sleep_r :: "exc option"

text \<open>The effects of item processing that the claims speak about, in program order.\<close>

datatype event =
  SemAcquire
  | SemRelease
  | RateAcquire nat
  | Fetch nat
  | Transform nat
  | Upsert nat
  | LogWarning
  | LogError
  | Sleep nat nat

text \<open>
  \<^verbatim>\<open>save_artwork\<close>: a \<^verbatim>\<open>DuplicateKeyError\<close> is logged as a warning and swallowed; any other
  \<^verbatim>\<open>Exception\<close> is logged as an error and re-raised; a cancellation passes both handlers.
\<close>

fun save_artwork :: "nat \<Rightarrow> exc option \<Rightarrow> event list \<times> exc option" where
  "save_artwork i None = ([Upsert i], None)"
| "save_artwork i (Some DuplicateKeyError) = ([Upsert i, LogWarning], None)"
| "save_artwork i (Some e) =
     (if is_Exception e then ([Upsert i, LogError], Some e) else ([Upsert i], Some e))"

text \<open>
  The body of the \<^verbatim>\<open>try\<close> of one attempt (lines 231 to 243): \<open>Inr False\<close> is
  \<^verbatim>\<open>return False\<close>, \<open>Inr True\<close> is \<^verbatim>\<open>return True\<close>, \<open>Inl e\<close> is an exception leaving
  the body.
\<close>

definition attempt_body :: "nat \<Rightarrow> attempt \<Rightarrow> event list \<times> (exc + bool)" where
  "attempt_body i a =
     (case acquire_r a of
        Some e \<Rightarrow> ([RateAcquire i], Inl e)
      | None \<Rightarrow>
          (case fetch_r a of
             Inl e \<Rightarrow> ([RateAcquire i, Fetch i], Inl e)
           | Inr False \<Rightarrow> ([RateAcquire i, Fetch i], Inr False)
           | Inr True \<Rightarrow>
               (case transform_r a of
                  Inl e \<Rightarrow> ([RateAcquire i, Fetch i, Transform i], Inl e)
                | Inr False \<Rightarrow> ([RateAcquire i, Fetch i, Transform i], Inr False)
                | Inr True \<Rightarrow>
                    (case save_artwork i (upsert_r a) of
                       (evs, Some e) \<Rightarrow> ([RateAcquire i, Fetch i, Transform i] @ evs, Inl e)
                     | (evs, None) \<Rightarrow> ([RateAcquire i, Fetch i, Transform i] @ evs, Inr True)))))"

text \<open>
  The result of \<^verbatim>\<open>process_artwork\<close>: \<open>Inl e\<close> when \<open>e\<close> propagates to the caller,
  \<open>Inr (Some b)\<close> for \<^verbatim>\<open>return b\<close>, and \<open>Inr None\<close> when the \<^verbatim>\<open>for\<close> loop ends without
  a \<^verbatim>\<open>return\<close> (Python then returns \<^verbatim>\<open>None\<close>).

  \<open>retry_loop\<close> is \<^verbatim>\<open>for attempt in range(self.max_retries)\<close> over the attempt indices
  still to run; the handler \<^verbatim>\<open>except Exception\<close> re-raises on the last index and otherwise
  sleeps \<^verbatim>\<open>2 ** attempt\<close>.
\<close>

fun retry_loop :: "int \<Rightarrow> (nat \<Rightarrow> attempt) \<Rightarrow> nat list \<Rightarrow> event list \<times> (exc + bool option)" where
  "retry_loop mr env [] = ([], Inr None)"
| "retry_loop mr env (i # rest) =
     (case attempt_body i (env i) of
        (evs, Inr b) \<Rightarrow> (evs, Inr (Some b))
      | (evs, Inl e) \<Rightarrow>
          if \<not> is_Exception e then (evs, Inl e)
          else if int i = mr - 1 then (evs, Inl e)
          else (case sleep_r (env i) of
                  Some e' \<Rightarrow> (evs @ [Sleep i (2 ^ i)], Inl e')
                | None \<Rightarrow>
                    (case retry_loop mr env rest of
                       (evs', r) \<Rightarrow> (evs @ [Sleep i (2 ^ i)] @ evs', r))))"

text \<open>Python's \<^verbatim>\<open>range(n)\<close> for an integer \<open>n\<close>: empty when \<open>n \<le> 0\<close>.\<close>

definition py_range :: "int \<Rightarrow> nat list" where
  "py_range n = [0..<nat n]"

text \<open>
  \<^verbatim>\<open>process_artwork\<close>: the whole loop runs inside \<^verbatim>\<open>async with self.request_semaphore\<close>.
  \<open>sem_r\<close> is the outcome of entering the semaphore (a cancellation while waiting for a
  slot raises before the slot is taken).
\<close>

definition process_artwork ::
  "int \<Rightarrow> exc option \<Rightarrow> (nat \<Rightarrow> attempt) \<Rightarrow> event list \<times> (exc + bool option)" where
  "process_artwork mr sem_r env =
     (case sem_r of
        Some e \<Rightarrow> ([], Inl e)
      | None \<Rightarrow>
          (case retry_loop mr env (py_range mr) of
             (evs, r) \<Rightarrow> ([SemAcquire] @ evs @ [SemRelease], r)))"

section \<open>Per-source statistics and the worker's bookkeeping\<close>

record museum_stats =
  total_processed :: int
  successful :: int
  failed :: int
  total_artworks :: int

definition init_stats :: museum_stats where
  "init_stats = \<lparr>total_processed = 0, successful = 0, failed = 0, total_artworks = 0\<rparr>"

text \<open>
  The \<^verbatim>\<open>try/except/finally\<close> around \<^verbatim>\<open>await task\<close> in \<^verbatim>\<open>worker\<close> (lines 177 to 190):
  a normal return of the task (whatever value) increments \<open>successful\<close>, an
  \<^verbatim>\<open>Exception\<close> increments \<open>failed\<close>, and the \<^verbatim>\<open>finally\<close> block increments
  \<open>total_processed\<close> in every case. The second component says whether an exception
  leaves the block (only a cancellation does), which the outer handler turns into
  \<^verbatim>\<open>break\<close>.
\<close>

definition record_outcome ::
  "museum_stats \<Rightarrow> (exc + bool option) \<Rightarrow> museum_stats \<times> exc option" where
  "record_outcome st r =
     (case r of
        Inr v \<Rightarrow>
          (st\<lparr>successful := successful st + 1, total_processed := total_processed st + 1\<rparr>, None)
      | Inl e \<Rightarrow>
          if is_Exception e
          then (st\<lparr>failed := failed st + 1, total_processed := total_processed st + 1\<rparr>, None)
          else (st\<lparr>total_processed := total_processed st + 1\<rparr>, Some e))"

text \<open>Projections of a trace used to state the claims.\<close>

fun sleeps :: "event list \<Rightarrow> (nat \<times> nat) list" where
  "sleeps [] = []"
| "sleeps (Sleep i d # evs) = (i, d) # sleeps evs"
| "sleeps (ev # evs) = sleeps evs"

fun attempts_made :: "event list \<Rightarrow> nat list" where
  "attempts_made [] = []"
| "attempts_made (RateAcquire i # evs) = i # attempts_made evs"
| "attempts_made (ev # evs) = attempts_made evs"

text \<open>The exception, if any, that leaves the body of attempt \<open>i\<close>.\<close>

definition attempt_error :: "nat \<Rightarrow> attempt \<Rightarrow> exc option" where
  "attempt_error i a = (case snd (attempt_body i a) of Inl e \<Rightarrow> Some e | Inr b \<Rightarrow> None)"

text \<open>An attempt fails when its body raises an \<^verbatim>\<open>Exception\<close>, which the retry handler catches.\<close>

definition failing :: "nat \<Rightarrow> attempt \<Rightarrow> bool" where
  "failing i a = (case attempt_error i a of Some e \<Rightarrow> is_Exception e | None \<Rightarrow> False)"

text \<open>The default of \<^verbatim>\<open>max_retries\<close> in \<^verbatim>\<open>CrawlerManager.__init__\<close>.\<close>

definition default_max_retries :: int where
  "default_max_retries = 3"

text \<open>Concrete environments: an attempt where every call succeeds, and an item whose fetch
  raises a timeout on its first \<open>n\<close> attempts.\<close>

definition ok_attempt :: attempt where
  "ok_attempt = \<lparr>acquire_r = None, fetch_r = Inr True, transform_r = Inr True,
                 upsert_r = None, sleep_r = None\<rparr>"

definition flaky_env :: "nat \<Rightarrow> nat \<Rightarrow> attempt" where
  "flaky_env n i = (if i < n then ok_attempt\<lparr>fetch_r := Inl TimeoutError\<rparr> else ok_attempt)"

text \<open>
  The events of a trace that happen while the semaphore slot is held, that is, strictly
  between a \<open>SemAcquire\<close> and the next \<open>SemRelease\<close>.
\<close>

fun held_events :: "bool \<Rightarrow> event list \<Rightarrow> event list" where
  "held_events h [] = []"
| "held_events h (SemAcquire # evs) = held_events True evs"
| "held_events h (SemRelease # evs) = held_events False evs"
| "held_events h (ev # evs) = (if h then ev # held_events h evs else held_events h evs)"

fun is_sem :: "event \<Rightarrow> bool" where
  "is_sem SemAcquire = True"
| "is_sem SemRelease = True"
| "is_sem _ = False"

text \<open>Environments where the upsert of every attempt raises the given exception.\<close>

definition upsert_raises :: "exc \<Rightarrow> nat \<Rightarrow> attempt" where
  "upsert_raises e i = ok_attempt\<lparr>upsert_r := Some e\<rparr>"

section \<open>The rate limiter (\<^verbatim>\<open>utils/rate_limiter.py\<close>)\<close>

text \<open>
  The dictionaries \<^verbatim>\<open>_rates\<close> and \<^verbatim>\<open>_last_check\<close> of \<^verbatim>\<open>RateLimiter\<close>. The third
  dictionary, \<^verbatim>\<open>_locks\<close>, holds one mutex per name: it makes the bodies of \<^verbatim>\<open>acquire\<close>
  for one name run one after the other, however many callers wait, so the calls for a name
  form a sequence. Time is the reading of \<^verbatim>\<open>time.monotonic()\<close>, a real number.
\<close>

record rate_limiter =
  rates :: "string \<rightharpoonup> (int \<times> real)"
  last_check :: "string \<rightharpoonup> real"

definition new_rate_limiter :: rate_limiter where
  "new_rate_limiter = \<lparr>rates = Map.empty, last_check = Map.empty\<rparr>"

definition configure :: "string \<Rightarrow> int \<Rightarrow> real \<Rightarrow> rate_limiter \<Rightarrow> rate_limiter" where
  "configure name calls period rl =
     rl\<lparr>rates := (rates rl)(name \<mapsto> (calls, period)),
        last_check := (last_check rl)(name \<mapsto> 0)\<rparr>"

text \<open>
  \<^verbatim>\<open>acquire\<close>. \<open>now\<close> is the clock read at line 26, once the lock is held. The second
  reading, at line 30, is \<open>now\<close> plus the time slept plus \<open>lag\<close>: a monotonic clock and a
  sleep that lasts at least as long as asked make \<open>lag\<close> non-negative. The result is the
  new limiter with the instant recorded as the time of this acquisition. An unconfigured
  name returns at once; \<^verbatim>\<open>period / calls\<close> raises for \<^verbatim>\<open>calls == 0\<close>.
\<close>

definition acquire :: "string \<Rightarrow> real \<Rightarrow> real \<Rightarrow> rate_limiter \<Rightarrow> exc + (rate_limiter \<times> real)" where
  "acquire name now lag rl =
     (case rates rl name of
        None \<Rightarrow> Inr (rl, now)
      | Some (calls, period) \<Rightarrow>
          if calls = 0 then Inl ZeroDivisionError
          else
            (case last_check rl name of
               None \<Rightarrow> Inl KeyError
             | Some lc \<Rightarrow>
                 let min_interval = period / real_of_int calls;
                     time_passed = now - lc;
                     slept = (if time_passed < min_interval then min_interval - time_passed else 0);
                     t = now + slept + lag
                 in Inr (rl\<lparr>last_check := (last_check rl)(name \<mapsto> t)\<rparr>, t)))"

text \<open>
  A sequence of calls of \<^verbatim>\<open>acquire\<close> for one name, in the order in which they hold the
  lock. Each call is given by \<open>(gap, lag)\<close>: it reads the clock \<open>gap\<close> after the previous
  call recorded its instant (after \<open>clock\<close> for the first call). The result lists the
  instants recorded by the calls.
\<close>

fun acquire_seq ::
  "string \<Rightarrow> (real \<times> real) list \<Rightarrow> real \<Rightarrow> rate_limiter \<Rightarrow> exc + (real list \<times> rate_limiter)" where
  "acquire_seq name [] clock rl = Inr ([], rl)"
| "acquire_seq name ((gap, lag) # cs) clock rl =
     (case acquire name (clock + gap) lag rl of
        Inl e \<Rightarrow> Inl e
      | Inr (rl', t) \<Rightarrow>
          (case acquire_seq name cs t rl' of
             Inl e \<Rightarrow> Inl e
           | Inr (ts, rl'') \<Rightarrow> Inr (t # ts, rl'')))"

text \<open>Consecutive instants of a list are at least \<open>d\<close> apart.\<close>

fun separated :: "real \<Rightarrow> real list \<Rightarrow> bool" where
  "separated d (a # b # ts) = (d \<le> b - a \<and> separated d (b # ts))"
| "separated d ts = True"

section \<open>The crawler manager as a transition system\<close>

text \<open>
  Python's slice \<^verbatim>\<open>xs[:k]\<close>: a negative \<open>k\<close> counts from the end. The cap of
  \<^verbatim>\<open>crawl_museum\<close> is applied under \<^verbatim>\<open>if self.max_artworks_per_museum:\<close>, which is false
  for \<^verbatim>\<open>None\<close> and for \<open>0\<close>.
\<close>

definition py_take :: "int \<Rightarrow> 'a list \<Rightarrow> 'a list" where
  "py_take k xs = (if 0 \<le> k then take (nat k) xs else take (nat (int (length xs) + k)) xs)"

definition truncate_ids :: "int option \<Rightarrow> 'a list \<Rightarrow> 'a list" where
  "truncate_ids mx ids = (case mx of None \<Rightarrow> ids | Some k \<Rightarrow> if k = 0 then ids else py_take k ids)"

text \<open>
  A worker task is suspended at one of its two \<^verbatim>\<open>await\<close>s, or has not run yet, or has
  returned. \<open>w_cancel\<close> records that \<^verbatim>\<open>Task.cancel()\<close> was called on it: the event loop then
  raises \<^verbatim>\<open>CancelledError\<close> at the await where the task is suspended, instead of resuming it.

  The first await is \<^verbatim>\<open>asyncio.wait_for(queue.get(), timeout=1.0)\<close>, and what it does
  depends on the interpreter. Before Python 3.12, \<^verbatim>\<open>wait_for\<close> runs \<^verbatim>\<open>queue.get()\<close> in a
  task of its own and the worker waits for that task: in \<open>Handed x\<close> that task has ended
  with \<open>x\<close>, taken off the queue, and the worker has not resumed yet. From Python 3.12 on,
  \<^verbatim>\<open>wait_for\<close> awaits \<^verbatim>\<open>queue.get()\<close> in the worker's own task, and no worker is ever in
  \<open>Handed\<close>. The transition system below has the steps of both.
\<close>

datatype wstate =
  Created
  | Dequeuing
  | Handed "string option"
  | Processing string
  | Exited

record worker =
  w_museum :: string
  w_state :: wstate
  w_cancel :: bool

text \<open>
  A \<^verbatim>\<open>crawl_museum\<close> task is suspended in \<^verbatim>\<open>get_artwork_ids\<close> or in the \<^verbatim>\<open>gather\<close> of its
  workers, or has ended, normally or with an exception. \<open>c_num_workers\<close> and \<open>c_workers\<close>
  are its local variables \<^verbatim>\<open>num_workers\<close> and \<^verbatim>\<open>workers\<close> (positions in
  \<open>active_workers\<close>); \<open>c_ids\<close> remembers what discovery returned.
\<close>

datatype cstate =
  Discovering
  | Draining
  | Closed "exc option"

record controller =
  c_museum :: string
  c_state :: cstate
  c_num_workers :: int
  c_workers :: "nat list"
  c_ids :: "string list option"
  c_cancel :: bool

datatype rstate =
  Gathering
  | Returned "exc option"

text \<open>
  The fields of \<^verbatim>\<open>CrawlerManager\<close> that the control flow reads or writes, and the tasks of
  one run of \<^verbatim>\<open>run_crawlers\<close>: \<open>pending\<close> are the crawlers whose task has not started
  (class name and \<^verbatim>\<open>CALLS_PER_SECOND\<close>), \<open>crawls\<close> the started \<^verbatim>\<open>crawl_museum\<close> tasks,
  \<open>gather_exc\<close> the exception set on the future of \<^verbatim>\<open>asyncio.gather(*tasks)\<close> (the first
  one raised by a task), \<open>run_state\<close> the state of \<^verbatim>\<open>run_crawlers\<close> itself, \<open>error_log\<close>
  the calls of \<^verbatim>\<open>logger.error\<close> made by \<^verbatim>\<open>crawl_museum\<close>.
\<close>

record manager =
  max_concurrent_requests :: int
  max_artworks_per_museum :: "int option"
  max_retries :: int
  active_museums :: int
  max_concurrent_per_museum :: int
  work_queues :: "string \<rightharpoonup> string option list"
  stats :: "string \<rightharpoonup> museum_stats"
  active_workers :: "worker list"
  shutdown_event :: bool
  limiter :: rate_limiter
  signal_handlers :: bool
  pending :: "(string \<times> int) list"
  crawls :: "controller list"
  gather_exc :: "exc option"
  run_state :: rstate
  error_log :: "(string \<times> exc) list"

text \<open>
  \<^verbatim>\<open>CrawlerManager.__init__\<close>; \<^verbatim>\<open>Semaphore(n)\<close> raises \<^verbatim>\<open>ValueError\<close> for a negative \<open>n\<close>.
\<close>

definition new_manager :: "int \<Rightarrow> int option \<Rightarrow> int \<Rightarrow> exc + manager" where
  "new_manager mcr max_artworks mr =
     (if mcr < 0 then Inl ValueError
      else Inr \<lparr>max_concurrent_requests = mcr, max_artworks_per_museum = max_artworks,
                max_retries = mr, active_museums = 0, max_concurrent_per_museum = 0,
                work_queues = Map.empty, stats = Map.empty, active_workers = [],
                shutdown_event = False, limiter = new_rate_limiter, signal_handlers = False,
                pending = [], crawls = [], gather_exc = None, run_state = Gathering,
                error_log = []\<rparr>)"

definition crawler_map :: "string \<rightharpoonup> (string \<times> int)" where
  "crawler_map = [''louvre'' \<mapsto> (''LouvreCrawler'', 80), ''met'' \<mapsto> (''MetCrawler'', 80)]"

text \<open>
  \<^verbatim>\<open>run_crawlers\<close> up to its \<^verbatim>\<open>await asyncio.gather(*tasks)\<close>: the manager is built with
  the default \<^verbatim>\<open>max_retries\<close> and one task is created per selected crawler.
\<close>

definition run_crawlers :: "string list \<Rightarrow> int \<Rightarrow> int option \<Rightarrow> exc + manager" where
  "run_crawlers museums mcr max_artworks =
     (case new_manager mcr max_artworks default_max_retries of
        Inl e \<Rightarrow> Inl e
      | Inr mgr \<Rightarrow> Inr (mgr\<lparr>pending := List.map_filter crawler_map museums\<rparr>))"

text \<open>
  What the event loop can do next. Each action runs one task from the await where it is
  suspended to its next await; the arguments are what the awaited call produced.
\<close>

datatype action =
  StartCrawl
  | Discovered nat "string list"
  | DiscoveryFails nat exc
  | WorkerStart nat
  | Dequeue nat
  | Get nat
  | Resume nat
  | Timeout nat
  | TaskDone nat "exc option" "nat \<Rightarrow> attempt"
  | Cancelled nat
  | CrawlCancelled nat
  | Finish nat
  | Signal
  | GatherReturns
  | Teardown

definition worker_at :: "nat \<Rightarrow> manager \<Rightarrow> worker option" where
  "worker_at w s = (if w < length (active_workers s) then Some (active_workers s ! w) else None)"

definition crawl_at :: "nat \<Rightarrow> manager \<Rightarrow> controller option" where
  "crawl_at c s = (if c < length (crawls s) then Some (crawls s ! c) else None)"

definition set_wstate :: "nat \<Rightarrow> wstate \<Rightarrow> manager \<Rightarrow> manager" where
  "set_wstate w st s =
     s\<lparr>active_workers := (active_workers s)[w := (active_workers s ! w)\<lparr>w_state := st\<rparr>]\<rparr>"

text \<open>The test of \<^verbatim>\<open>while not self.shutdown_event.is_set()\<close>, followed by the dequeue.\<close>

definition loop_head :: "manager \<Rightarrow> wstate" where
  "loop_head s = (if shutdown_event s then Exited else Dequeuing)"

text \<open>
  \<^verbatim>\<open>_log_progress\<close> and \<^verbatim>\<open>_log_museum_stats\<close> divide by \<^verbatim>\<open>total_artworks\<close>.
\<close>

definition log_progress :: "museum_stats \<Rightarrow> exc option" where
  "log_progress st = (if total_artworks st = 0 then Some ZeroDivisionError else None)"

definition log_museum_stats :: "museum_stats \<Rightarrow> exc option" where
  "log_museum_stats st = (if total_artworks st = 0 then Some ZeroDivisionError else None)"

text \<open>
  The end of \<^verbatim>\<open>crawl_museum\<close>: the handler of \<^verbatim>\<open>Exception\<close> logs an error and
  re-raises (the handler of \<^verbatim>\<open>CancelledError\<close> logs at level info), the \<^verbatim>\<open>finally\<close>
  block decrements \<^verbatim>\<open>active_museums\<close>, and an exception of the task is set on the future
  of \<^verbatim>\<open>gather\<close> unless one is set already.
\<close>

definition close_crawl :: "nat \<Rightarrow> exc option \<Rightarrow> manager \<Rightarrow> manager" where
  "close_crawl c r s =
     s\<lparr>crawls := (crawls s)[c := (crawls s ! c)\<lparr>c_state := Closed r\<rparr>],
       active_museums := active_museums s - 1,
       gather_exc := (case gather_exc s of None \<Rightarrow> r | Some e \<Rightarrow> Some e),
       error_log := (case r of
                       None \<Rightarrow> error_log s
                     | Some e \<Rightarrow>
                         if is_Exception e then error_log s @ [(c_museum (crawls s ! c), e)]
                         else error_log s)\<rparr>"

text \<open>\<^verbatim>\<open>crawl_museum\<close>, lines 84 to 117, up to the await of \<^verbatim>\<open>get_artwork_ids\<close>.\<close>

definition start_crawl :: "manager \<Rightarrow> manager option" where
  "start_crawl s =
     (case pending s of
        [] \<Rightarrow> None
      | (name, cps) # rest \<Rightarrow>
          let active = active_museums s + 1;
              s1 = s\<lparr>pending := rest, active_museums := active,
                     limiter := configure name cps 1 (limiter s),
                     crawls := crawls s @
                       [\<lparr>c_museum = name, c_state = Discovering, c_num_workers = 0,
                         c_workers = [], c_ids = None, c_cancel = False\<rparr>]\<rparr>
          in if active = 0 then Some (close_crawl (length (crawls s)) (Some ZeroDivisionError) s1)
             else
               let mcpm = max 1 (max_concurrent_requests s div active);
                   num_workers = min mcpm (max_concurrent_requests s)
               in Some (s1\<lparr>max_concurrent_per_museum := mcpm,
                           signal_handlers := True,
                           work_queues := (work_queues s)(name \<mapsto> []),
                           stats := (stats s)(name \<mapsto> init_stats),
                           crawls := crawls s @
                             [\<lparr>c_museum = name, c_state = Discovering,
                               c_num_workers = num_workers, c_workers = [], c_ids = None,
                               c_cancel = False\<rparr>]\<rparr>))"

text \<open>
  \<^verbatim>\<open>crawl_museum\<close>, lines 118 to 146, after \<^verbatim>\<open>get_artwork_ids\<close> returned \<open>ids\<close>: record the
  total, cap the list, enqueue it unless the shutdown signal is set, create the workers,
  enqueue one sentinel per worker and wait for the workers.
\<close>

definition discovered :: "nat \<Rightarrow> string list \<Rightarrow> manager \<Rightarrow> manager option" where
  "discovered c ids s =
     (case crawl_at c s of
        None \<Rightarrow> None
      | Some ctl \<Rightarrow>
          if c_state ctl \<noteq> Discovering \<or> c_cancel ctl then None
          else
            (case (stats s (c_museum ctl), work_queues s (c_museum ctl)) of
               (Some st, Some q) \<Rightarrow>
                 let artwork_ids = truncate_ids (max_artworks_per_museum s) ids;
                     q1 = (if shutdown_event s then q else q @ map Some artwork_ids);
                     n = nat (c_num_workers ctl);
                     first = length (active_workers s)
                 in Some (s\<lparr>stats := (stats s)(c_museum ctl \<mapsto> st\<lparr>total_artworks := int (length ids)\<rparr>),
                             work_queues := (work_queues s)(c_museum ctl \<mapsto> q1 @ replicate n None),
                             active_workers := active_workers s @
                               replicate n \<lparr>w_museum = c_museum ctl, w_state = Created, w_cancel = False\<rparr>,
                             crawls := (crawls s)[c := ctl\<lparr>c_state := Draining,
                               c_workers := [first..<first + n], c_ids := Some ids\<rparr>]\<rparr>)
             | _ \<Rightarrow> None))"

text \<open>\<^verbatim>\<open>get_artwork_ids\<close> raises: both handlers re-raise, no worker is created.\<close>

definition discovery_fails :: "nat \<Rightarrow> exc \<Rightarrow> manager \<Rightarrow> manager option" where
  "discovery_fails c e s =
     (case crawl_at c s of
        None \<Rightarrow> None
      | Some ctl \<Rightarrow>
          if c_state ctl \<noteq> Discovering \<or> c_cancel ctl then None
          else Some (close_crawl c (Some e) s))"

definition crawl_cancelled :: "nat \<Rightarrow> manager \<Rightarrow> manager option" where
  "crawl_cancelled c s =
     (case crawl_at c s of
        None \<Rightarrow> None
      | Some ctl \<Rightarrow>
          if c_state ctl = Discovering \<and> c_cancel ctl
          then Some (close_crawl c (Some CancelledError) s) else None)"

text \<open>
  \<^verbatim>\<open>crawl_museum\<close>, lines 146 to 159: the \<^verbatim>\<open>gather\<close> of the workers is over when all of
  them have returned; then the final statistics are logged.
\<close>

definition finish :: "nat \<Rightarrow> manager \<Rightarrow> manager option" where
  "finish c s =
     (case crawl_at c s of
        None \<Rightarrow> None
      | Some ctl \<Rightarrow>
          if c_state ctl = Draining
             \<and> list_all (\<lambda>i. w_state (active_workers s ! i) = Exited) (c_workers ctl)
          then
            if c_cancel ctl then Some (close_crawl c (Some CancelledError) s)
            else (case stats s (c_museum ctl) of
                    None \<Rightarrow> None
                  | Some st \<Rightarrow> Some (close_crawl c (log_museum_stats st) s))
          else None)"

text \<open>The worker, from its creation to the first dequeue.\<close>

definition worker_start :: "nat \<Rightarrow> manager \<Rightarrow> manager option" where
  "worker_start w s =
     (case worker_at w s of
        None \<Rightarrow> None
      | Some wk \<Rightarrow>
          if w_state wk = Created \<and> \<not> w_cancel wk then Some (set_wstate w (loop_head s) s)
          else None)"

text \<open>
  \<^verbatim>\<open>queue.get()\<close> returns the head of the queue to a worker that has not been cancelled,
  in one step (\<^verbatim>\<open>wait_for\<close> from Python 3.12 on): a sentinel ends the loop, an item starts
  its processing task, which the worker awaits. With that \<^verbatim>\<open>wait_for\<close> the loop test and a
  dequeue from a queue that is not empty happen in one step of the event loop; taking them
  as two steps here adds interleavings and removes none.
\<close>

definition dequeue :: "nat \<Rightarrow> manager \<Rightarrow> manager option" where
  "dequeue w s =
     (case worker_at w s of
        None \<Rightarrow> None
      | Some wk \<Rightarrow>
          if w_state wk = Dequeuing \<and> \<not> w_cancel wk then
            (case work_queues s (w_museum wk) of
               Some (x # q) \<Rightarrow>
                 Some (set_wstate w (case x of None \<Rightarrow> Exited | Some artwork_id \<Rightarrow> Processing artwork_id)
                         (s\<lparr>work_queues := (work_queues s)(w_museum wk \<mapsto> q)\<rparr>))
             | _ \<Rightarrow> None)
          else None)"

text \<open>
  \<^verbatim>\<open>wait_for\<close> before Python 3.12, in two steps. First the task of \<^verbatim>\<open>queue.get()\<close> takes
  the head of the queue. It is a task of its own, scheduled when the worker called
  \<^verbatim>\<open>wait_for\<close>: a cancellation of the worker that arrives before it has run does not stop
  it.
\<close>

definition get_task :: "nat \<Rightarrow> manager \<Rightarrow> manager option" where
  "get_task w s =
     (case worker_at w s of
        None \<Rightarrow> None
      | Some wk \<Rightarrow>
          if w_state wk = Dequeuing then
            (case work_queues s (w_museum wk) of
               Some (x # q) \<Rightarrow>
                 Some (set_wstate w (Handed x) (s\<lparr>work_queues := (work_queues s)(w_museum wk \<mapsto> q)\<rparr>))
             | _ \<Rightarrow> None)
          else None)"

text \<open>
  Then the worker resumes inside \<^verbatim>\<open>wait_for\<close>. When it has been cancelled in the meantime,
  \<^verbatim>\<open>wait_for\<close> catches the \<^verbatim>\<open>CancelledError\<close>, finds the task of \<^verbatim>\<open>queue.get()\<close> done and
  returns its result (\<^verbatim>\<open>except CancelledError: if fut.done(): return fut.result()\<close>): the
  cancellation is lost, and the worker goes on with what it was handed as if it had not been
  cancelled.
\<close>

definition resume :: "nat \<Rightarrow> manager \<Rightarrow> manager option" where
  "resume w s =
     (case worker_at w s of
        None \<Rightarrow> None
      | Some wk \<Rightarrow>
          (case w_state wk of
             Handed x \<Rightarrow>
               Some (s\<lparr>active_workers := (active_workers s)
                        [w := wk\<lparr>w_state := (case x of None \<Rightarrow> Exited
                                               | Some artwork_id \<Rightarrow> Processing artwork_id),
                                  w_cancel := False\<rparr>]\<rparr>)
           | _ \<Rightarrow> None))"

text \<open>\<^verbatim>\<open>wait_for\<close> times out on an empty queue: \<^verbatim>\<open>continue\<close>, back to the loop test.\<close>

definition timeout :: "nat \<Rightarrow> manager \<Rightarrow> manager option" where
  "timeout w s =
     (case worker_at w s of
        None \<Rightarrow> None
      | Some wk \<Rightarrow>
          if w_state wk = Dequeuing \<and> \<not> w_cancel wk \<and> work_queues s (w_museum wk) = Some []
          then Some (set_wstate w (loop_head s) s) else None)"

text \<open>
  What the worker does after the bookkeeping of an item: a cancellation leaves the loop;
  otherwise every hundredth item logs the progress, and the loop test follows.
\<close>

definition after_item :: "museum_stats \<Rightarrow> exc option \<Rightarrow> manager \<Rightarrow> wstate" where
  "after_item st leave s =
     (case leave of
        Some e \<Rightarrow> Exited
      | None \<Rightarrow>
          if total_processed st mod 100 = 0 \<and> log_progress st \<noteq> None then Exited
          else loop_head s)"

text \<open>The awaited \<^verbatim>\<open>process_artwork\<close> task ends, with the outcome given by its environment.\<close>

definition task_done :: "nat \<Rightarrow> exc option \<Rightarrow> (nat \<Rightarrow> attempt) \<Rightarrow> manager \<Rightarrow> manager option" where
  "task_done w sem_r env s =
     (case worker_at w s of
        None \<Rightarrow> None
      | Some wk \<Rightarrow>
          if w_cancel wk then None
          else
            (case (w_state wk, stats s (w_museum wk)) of
               (Processing artwork_id, Some st) \<Rightarrow>
                 (case record_outcome st (snd (process_artwork (max_retries s) sem_r env)) of
                    (st', leave) \<Rightarrow>
                      Some (set_wstate w (after_item st' leave s)
                              (s\<lparr>stats := (stats s)(w_museum wk \<mapsto> st')\<rparr>)))
             | _ \<Rightarrow> None))"

text \<open>
  A cancelled worker gets \<^verbatim>\<open>CancelledError\<close> at its await. While it awaits an item's task,
  the \<^verbatim>\<open>finally\<close> block of the item still runs before the outer handler breaks the loop.
  While it waits in \<^verbatim>\<open>wait_for\<close> and \<^verbatim>\<open>queue.get()\<close> has not returned, the queue is left
  as it is. A worker that has been handed a value does not get the \<^verbatim>\<open>CancelledError\<close>:
  \<open>resume\<close> is its only step.
\<close>

definition cancelled :: "nat \<Rightarrow> manager \<Rightarrow> manager option" where
  "cancelled w s =
     (case worker_at w s of
        None \<Rightarrow> None
      | Some wk \<Rightarrow>
          if \<not> w_cancel wk then None
          else
            (case w_state wk of
               Exited \<Rightarrow> None
             | Handed x \<Rightarrow> None
             | Processing artwork_id \<Rightarrow>
                 (case stats s (w_museum wk) of
                    None \<Rightarrow> None
                  | Some st \<Rightarrow>
                      Some (set_wstate w Exited
                              (s\<lparr>stats := (stats s)(w_museum wk \<mapsto>
                                    fst (record_outcome st (Inl CancelledError)))\<rparr>)))
             | _ \<Rightarrow> Some (set_wstate w Exited s)))"

text \<open>
  \<^verbatim>\<open>_shutdown\<close>, up to its first await: nothing when the event is set already; otherwise
  set it and cancel every worker.
\<close>

definition signal :: "manager \<Rightarrow> manager option" where
  "signal s =
     (if \<not> signal_handlers s then None
      else if shutdown_event s then Some s
      else Some (s\<lparr>shutdown_event := True,
                   active_workers := map (\<lambda>wk. wk\<lparr>w_cancel := True\<rparr>) (active_workers s)\<rparr>))"

text \<open>
  \<^verbatim>\<open>run_crawlers\<close> resumes from \<^verbatim>\<open>await asyncio.gather(*tasks)\<close>, called without
  \<^verbatim>\<open>return_exceptions\<close>: as soon as one task has raised, with that exception, and
  otherwise when all tasks have ended. The handler of \<^verbatim>\<open>run_crawlers\<close> swallows a
  \<^verbatim>\<open>CancelledError\<close> only.
\<close>

definition gather_returns :: "manager \<Rightarrow> manager option" where
  "gather_returns s =
     (if run_state s \<noteq> Gathering then None
      else
        (case gather_exc s of
           Some e \<Rightarrow> Some (s\<lparr>run_state := Returned (if e = CancelledError then None else Some e)\<rparr>)
         | None \<Rightarrow>
             if pending s = [] \<and> list_all (\<lambda>ctl. c_state ctl = Closed None) (crawls s)
             then Some (s\<lparr>run_state := Returned None\<rparr>) else None))"

text \<open>
  \<^verbatim>\<open>asyncio.run\<close>, once \<^verbatim>\<open>run_crawlers\<close> has ended: every task that is not done is
  cancelled.
\<close>

definition teardown :: "manager \<Rightarrow> manager option" where
  "teardown s =
     (case run_state s of
        Gathering \<Rightarrow> None
      | Returned r \<Rightarrow>
          Some (s\<lparr>pending := [],
                  crawls := map (\<lambda>ctl. ctl\<lparr>c_cancel := True\<rparr>) (crawls s),
                  active_workers := map (\<lambda>wk. wk\<lparr>w_cancel := True\<rparr>) (active_workers s)\<rparr>))"

fun step :: "action \<Rightarrow> manager \<Rightarrow> manager option" where
  "step StartCrawl s = start_crawl s"
| "step (Discovered c ids) s = discovered c ids s"
| "step (DiscoveryFails c e) s = discovery_fails c e s"
| "step (WorkerStart w) s = worker_start w s"
| "step (Dequeue w) s = dequeue w s"
| "step (Get w) s = get_task w s"
| "step (Resume w) s = resume w s"
| "step (Timeout w) s = timeout w s"
| "step (TaskDone w sem_r env) s = task_done w sem_r env s"
| "step (Cancelled w) s = cancelled w s"
| "step (CrawlCancelled c) s = crawl_cancelled c s"
| "step (Finish c) s = finish c s"
| "step Signal s = signal s"
| "step GatherReturns s = gather_returns s"
| "step Teardown s = teardown s"

text \<open>A schedule is a list of actions; it runs as long as each action is enabled.\<close>

fun run :: "action list \<Rightarrow> manager \<Rightarrow> manager option" where
  "run [] s = Some s"
| "run (a # as) s = (case step a s of None \<Rightarrow> None | Some s' \<Rightarrow> run as s')"

text \<open>Environments of an item: found and saved at once, and not found.\<close>

definition ok_env :: "nat \<Rightarrow> attempt" where
  "ok_env i = ok_attempt"

definition not_found_env :: "nat \<Rightarrow> attempt" where
  "not_found_env i = ok_attempt\<lparr>fetch_r := Inr False\<rparr>"

text \<open>
  One Met item in flight when the interrupt arrives.
\<close>

definition cancelled_run :: "action list" where
  "cancelled_run = [StartCrawl, Discovered 0 [''1''], WorkerStart 0, Dequeue 0, Signal]"

text \<open>One Met item that is not found, processed by the only worker until the run ends.\<close>

definition not_found_run :: "action list" where
  "not_found_run =
     [StartCrawl, Discovered 0 [''1''], WorkerStart 0, Dequeue 0,
      TaskDone 0 None not_found_env, Dequeue 0, Finish 0]"

fun is_upsert :: "event \<Rightarrow> bool" where
  "is_upsert (Upsert i) = True"
| "is_upsert _ = False"

text \<open>The sources that are active: the \<^verbatim>\<open>crawl_museum\<close> tasks that have started and not ended.\<close>

definition is_closed :: "controller \<Rightarrow> bool" where
  "is_closed ctl = (case c_state ctl of Closed r \<Rightarrow> True | _ \<Rightarrow> False)"

definition active_sources :: "manager \<Rightarrow> nat" where
  "active_sources s = length (filter (\<lambda>ctl. \<not> is_closed ctl) (crawls s))"

text \<open>
  \<^verbatim>\<open>active_museums\<close> counts the tasks of \<^verbatim>\<open>crawl_museum\<close> that have started and not
  ended, and a task that waits for its workers has created \<^verbatim>\<open>num_workers\<close> of them.
\<close>

definition counts_ok :: "manager \<Rightarrow> bool" where
  "counts_ok s \<longleftrightarrow>
     active_museums s = int (active_sources s)
     \<and> list_all (\<lambda>ctl. c_state ctl = Draining \<longrightarrow>
                   length (c_workers ctl) = nat (c_num_workers ctl)) (crawls s)"

text \<open>
  Once the shutdown signal is set, every worker that is suspended in a dequeue has been
  cancelled.
\<close>

definition cancel_on_shutdown :: "manager \<Rightarrow> bool" where
  "cancel_on_shutdown s \<longleftrightarrow>
     (shutdown_event s \<longrightarrow>
        list_all (\<lambda>wk. w_state wk = Dequeuing \<longrightarrow> w_cancel wk) (active_workers s))"

text \<open>
  The actions by which a value leaves a queue, and those of them that belong to
  \<^verbatim>\<open>wait_for\<close> before Python 3.12.
\<close>

fun takes_item :: "action \<Rightarrow> bool" where
  "takes_item (Dequeue w) = True"
| "takes_item (Get w) = True"
| "takes_item _ = False"

fun is_get :: "action \<Rightarrow> bool" where
  "is_get (Get w) = True"
| "is_get _ = False"

text \<open>
  Two Met items and two workers; the interrupt arrives when both workers are suspended in
  \<^verbatim>\<open>wait_for\<close>. On Python before 3.12 the tasks of \<^verbatim>\<open>queue.get()\<close> then run, the workers
  resume with the items, and the items are processed.
\<close>

definition interrupted_run :: "action list" where
  "interrupted_run =
     [StartCrawl, Discovered 0 [''a'', ''b''], WorkerStart 0, WorkerStart 1, Signal]"

definition late_items :: "action list" where
  "late_items =
     [Get 0, Get 1, Resume 0, Resume 1, TaskDone 0 None ok_env, TaskDone 1 None ok_env]"

text \<open>
  A worker that polls an empty queue. A worker finds its sentinel in the queue of its
  source unless the queue is replaced: with \<^verbatim>\<open>--museums met met\<close> the second task of Met
  installs a new, empty queue under the same name while the first task's worker has an
  item in flight, and that worker then polls the new queue.
\<close>

definition polling_run :: "action list" where
  "polling_run =
     [StartCrawl, Discovered 0 [''a''], WorkerStart 0, Dequeue 0, StartCrawl,
      TaskDone 0 None ok_env]"

text \<open>
  Met and Louvre with a limit of 4; Louvre has two items and one of them in flight when the
  discovery of Met fails. \<^verbatim>\<open>run_crawlers\<close> then ends and the event loop is torn down.
\<close>

definition failed_discovery_run :: "action list" where
  "failed_discovery_run =
     [StartCrawl, StartCrawl, Discovered 1 [''a'', ''b''], WorkerStart 0, Dequeue 0,
      DiscoveryFails 0 (OtherError ''unreachable''), GatherReturns, Teardown,
      Cancelled 0, Cancelled 1, Finish 1]"

section \<open>Accounting of a source run\<close>

text \<open>
  The workers of a source: their positions, how many of them have still to take a sentinel
  (they have neither returned nor been handed one), and how many of them hold an item
  (handed to them, or in flight in the task they await).
\<close>

fun is_live :: "wstate \<Rightarrow> bool" where
  "is_live Exited = False"
| "is_live (Handed None) = False"
| "is_live _ = True"

fun holds_item :: "wstate \<Rightarrow> bool" where
  "holds_item (Processing artwork_id) = True"
| "holds_item (Handed (Some artwork_id)) = True"
| "holds_item _ = False"

definition workers_of :: "string \<Rightarrow> manager \<Rightarrow> nat set" where
  "workers_of m s = {i. i < length (active_workers s) \<and> w_museum (active_workers s ! i) = m}"

definition live :: "string \<Rightarrow> manager \<Rightarrow> nat" where
  "live m s = length (filter (\<lambda>wk. w_museum wk = m \<and> is_live (w_state wk)) (active_workers s))"

definition in_flight :: "string \<Rightarrow> manager \<Rightarrow> nat" where
  "in_flight m s =
     length (filter (\<lambda>wk. w_museum wk = m \<and> holds_item (w_state wk)) (active_workers s))"

text \<open>
  The actions of a run without cancellation: no interrupt, no teardown of the event loop,
  and no item task that ends with \<^verbatim>\<open>CancelledError\<close>.
\<close>

fun quiet :: "int \<Rightarrow> action \<Rightarrow> bool" where
  "quiet mr Signal = False"
| "quiet mr Teardown = False"
| "quiet mr (TaskDone w sem_r env) =
     (case snd (process_artwork mr sem_r env) of Inl e \<Rightarrow> is_Exception e | Inr v \<Rightarrow> True)"
| "quiet mr a = True"

text \<open>
  In such a run nothing is cancelled, the sources have different names (the source
  descriptor's name is a unique key), and a source that has not started has no worker.
\<close>

definition calm :: "manager \<Rightarrow> bool" where
  "calm s \<longleftrightarrow>
     \<not> shutdown_event s
     \<and> list_all (\<lambda>wk. \<not> w_cancel wk) (active_workers s)
     \<and> list_all (\<lambda>ctl. \<not> c_cancel ctl) (crawls s)
     \<and> distinct (map c_museum (crawls s) @ map fst (pending s))
     \<and> list_all (\<lambda>p. workers_of (fst p) s = {}) (pending s)"

text \<open>
  The statistics of a completed run that discovered \<open>ids\<close>, under the global limit \<open>mcr\<close>:
  with a limit of 0 the source has no worker and nothing is processed.
\<close>

definition final_stats :: "int \<Rightarrow> int option \<Rightarrow> string list \<Rightarrow> museum_stats \<Rightarrow> bool" where
  "final_stats mcr mx ids st \<longleftrightarrow>
     total_processed st = successful st + failed st
     \<and> total_artworks st = int (length ids)
     \<and> (1 \<le> mcr \<longrightarrow> total_processed st = int (length (truncate_ids mx ids)))"

text \<open>
  What holds of one source while its task waits for the discovery, while it waits for its
  workers (the queue holds the items not yet taken, followed by one sentinel per worker
  that has still to take one; every item is in the queue, held by a worker or processed;
  once a worker has taken a sentinel no item is left), and after the task has ended.
\<close>

definition draining_ok :: "manager \<Rightarrow> controller \<Rightarrow> string list \<Rightarrow> string list \<Rightarrow> museum_stats \<Rightarrow> bool" where
  "draining_ok s ctl ids items st \<longleftrightarrow>
     c_ids ctl = Some ids
     \<and> work_queues s (c_museum ctl) = Some (map Some items @ replicate (live (c_museum ctl) s) None)
     \<and> stats s (c_museum ctl) = Some st
     \<and> total_processed st = successful st + failed st
     \<and> 0 \<le> total_processed st
     \<and> total_artworks st = int (length ids)
     \<and> total_processed st + int (length items) + int (in_flight (c_museum ctl) s) =
         int (length (truncate_ids (max_artworks_per_museum s) ids))
     \<and> (live (c_museum ctl) s < nat (c_num_workers ctl) \<longrightarrow> items = [])"

definition crawl_ok :: "manager \<Rightarrow> controller \<Rightarrow> bool" where
  "crawl_ok s ctl \<longleftrightarrow>
     (case c_state ctl of
        Discovering \<Rightarrow>
          work_queues s (c_museum ctl) = Some [] \<and> stats s (c_museum ctl) = Some init_stats
          \<and> workers_of (c_museum ctl) s = {} \<and> c_ids ctl = None
          \<and> (1 \<le> max_concurrent_requests s \<longrightarrow> 1 \<le> c_num_workers ctl)
      | Draining \<Rightarrow>
          (1 \<le> max_concurrent_requests s \<longrightarrow> 1 \<le> c_num_workers ctl)
          \<and> set (c_workers ctl) = workers_of (c_museum ctl) s
          \<and> (\<exists>ids items st. draining_ok s ctl ids items st)
      | Closed r \<Rightarrow>
          (\<forall>ids. c_ids ctl = Some ids \<longrightarrow>
             live (c_museum ctl) s = 0
             \<and> (\<exists>st. stats s (c_museum ctl) = Some st
                   \<and> final_stats (max_concurrent_requests s) (max_artworks_per_museum s) ids st)))"

definition crawl_inv :: "manager \<Rightarrow> bool" where
  "crawl_inv s \<longleftrightarrow> calm s \<and> list_all (crawl_ok s) (crawls s)"

text \<open>One Met item, found and saved by the only worker, until the run ends.\<close>

definition one_item_run :: "action list" where
  "one_item_run =
     [StartCrawl, Discovered 0 [''1''], WorkerStart 0, Dequeue 0,
      TaskDone 0 None ok_env, Dequeue 0, Finish 0]"

text \<open>An item whose fetch raises a timeout on every attempt.\<close>

definition failing_env :: "nat \<Rightarrow> attempt" where
  "failing_env i = ok_attempt\<lparr>fetch_r := Inl TimeoutError\<rparr>"

text \<open>
  Three Met items and two workers, no cap. The items and the sentinels reach the workers in
  two steps, as \<^verbatim>\<open>wait_for\<close> does before Python 3.12; the second item fails on all three
  attempts.
\<close>

definition handed_over_run :: "action list" where
  "handed_over_run =
     [StartCrawl, Discovered 0 [''1'', ''2'', ''3''], WorkerStart 0, WorkerStart 1,
      Get 0, Get 1, Resume 1, Resume 0, TaskDone 1 None failing_env, Get 1,
      TaskDone 0 None ok_env, Resume 1, Get 0, Resume 0, TaskDone 1 None ok_env, Dequeue 1,
      Finish 0]"

text \<open>
  Two Met items with a cap of one item: the only worker processes the first item and then
  takes its sentinel.
\<close>

definition capped_run :: "action list" where
  "capped_run =
     [StartCrawl, Discovered 0 [''1'', ''2''], WorkerStart 0, Dequeue 0,
      TaskDone 0 None ok_env, Dequeue 0, Finish 0]"

section \<open>Properties of item processing\<close>

lemma sleeps_append: "sleeps (xs @ ys) = sleeps xs @ sleeps ys"
  by (induction xs rule: sleeps.induct) simp_all

lemma attempts_made_append: "attempts_made (xs @ ys) = attempts_made xs @ attempts_made ys"
  by (induction xs rule: attempts_made.induct) simp_all

lemma save_artwork_events:
  "sleeps (fst (save_artwork i u)) = [] \<and> attempts_made (fst (save_artwork i u)) = []"
  by (cases "(i, u)" rule: save_artwork.cases) auto

lemma attempt_body_events:
  "sleeps (fst (attempt_body i a)) = [] \<and> attempts_made (fst (attempt_body i a)) = [i]"
  using save_artwork_events [of i "upsert_r a"]
  by (auto simp: attempt_body_def split: option.splits sum.splits bool.splits prod.splits)

lemma retry_loop_fail_prefix:
  assumes "j \<le> k" and "k \<le> nat m"
    and "\<forall>i. j \<le> i \<and> i < k \<longrightarrow> failing i (env i) \<and> (Suc i < nat m \<longrightarrow> sleep_r (env i) = None)"
    and "k < nat m \<longrightarrow> \<not> failing k (env k)"
  shows "sleeps (fst (retry_loop m env [j..<nat m])) = map (\<lambda>i. (i, 2 ^ i)) [j..<min k (nat m - 1)]
       \<and> attempts_made (fst (retry_loop m env [j..<nat m])) = [j..<min (Suc k) (nat m)]
       \<and> (k = nat m \<and> j < nat m \<longrightarrow>
            snd (retry_loop m env [j..<nat m]) = Inl (the (attempt_error (nat m - 1) (env (nat m - 1)))))"
  using assms
proof (induction "nat m - j" arbitrary: j)
  case 0
  then show ?case by simp
next
  case (Suc d)
  then have jn: "j < nat m" by simp
  then have upt: "[j..<nat m] = j # [Suc j..<nat m]" by (simp add: upt_conv_Cons)
  obtain evs r where ab: "attempt_body j (env j) = (evs, r)" by (cases "attempt_body j (env j)")
  have ev: "sleeps evs = []" "attempts_made evs = [j]"
    using attempt_body_events [of j "env j"] ab by simp_all
  show ?case
  proof (cases "j = k")
    case True
    with Suc.prems jn have nf: "\<not> failing j (env j)" by simp
    show ?thesis
    proof (cases r)
      case (Inr b)
      with ab ev True jn upt show ?thesis by simp
    next
      case (Inl e)
      with nf ab have "\<not> is_Exception e" by (simp add: failing_def attempt_error_def)
      with Inl ab ev True jn upt show ?thesis by simp
    qed
  next
    case False
    with Suc.prems have jk: "j < k" by simp
    with Suc.prems have f: "failing j (env j)" and sl: "Suc j < nat m \<longrightarrow> sleep_r (env j) = None"
      by auto
    from f ab obtain e where r: "r = Inl e" and e: "is_Exception e" and ae: "attempt_error j (env j) = Some e"
      by (auto simp: failing_def attempt_error_def split: sum.splits option.splits)
    show ?thesis
    proof (cases "Suc j = nat m")
      case True
      then have "int j = m - 1" by linarith
      moreover from True jk Suc.prems have "k = nat m" by simp
      moreover from True have "nat m - Suc 0 = j" by simp
      ultimately show ?thesis using ab r e ev upt True ae by simp
    next
      case F2: False
      with jn have sj: "Suc j < nat m" by simp
      then have ne: "int j \<noteq> m - 1" by linarith
      from sl sj have s: "sleep_r (env j) = None" by simp
      have d: "d = nat m - Suc j" using Suc.hyps(2) by simp
      have ih: "sleeps (fst (retry_loop m env [Suc j..<nat m])) = map (\<lambda>i. (i, 2 ^ i)) [Suc j..<min k (nat m - 1)]
       \<and> attempts_made (fst (retry_loop m env [Suc j..<nat m])) = [Suc j..<min (Suc k) (nat m)]
       \<and> (k = nat m \<and> Suc j < nat m \<longrightarrow>
            snd (retry_loop m env [Suc j..<nat m]) = Inl (the (attempt_error (nat m - 1) (env (nat m - 1)))))"
        using Suc.hyps(1) [OF d] jk Suc.prems by simp
      obtain evs' r' where rl: "retry_loop m env [Suc j..<nat m] = (evs', r')"
        by (cases "retry_loop m env [Suc j..<nat m]")
      have m1: "j < min k (nat m - 1)" using jk sj by simp
      have m2: "j < min (Suc k) (nat m)" using jk sj by simp
      show ?thesis
        using ab r e ev upt ne s rl ih sj m1 m2
        by (simp add: sleeps_append attempts_made_append upt_conv_Cons)
    qed
  qed
qed

lemma retry_loop_last_error:
  assumes "0 < nat m"
    and "\<forall>i<nat m. failing i (env i) \<and> (Suc i < nat m \<longrightarrow> sleep_r (env i) = None)"
  shows "\<exists>e. attempt_error (nat m - 1) (env (nat m - 1)) = Some e \<and> is_Exception e
           \<and> snd (retry_loop m env [0..<nat m]) = Inl e"
proof -
  from assms have "failing (nat m - 1) (env (nat m - 1))" by simp
  then obtain e where e: "attempt_error (nat m - 1) (env (nat m - 1)) = Some e" "is_Exception e"
    by (auto simp: failing_def split: option.splits)
  have "snd (retry_loop m env [0..<nat m]) = Inl (the (attempt_error (nat m - 1) (env (nat m - 1))))"
    using retry_loop_fail_prefix [of 0 "nat m" m env] assms by simp
  with e show ?thesis by simp
qed

lemma retry_loop_trace:
  assumes "j \<le> k" and "k \<le> nat m" and "j < nat m"
    and "\<forall>i. j \<le> i \<and> i < k \<longrightarrow> failing i (env i) \<and> (Suc i < nat m \<longrightarrow> sleep_r (env i) = None)"
    and "k < nat m \<longrightarrow> \<not> failing k (env k)"
  shows "fst (retry_loop m env [j..<nat m]) =
           concat (map (\<lambda>i. fst (attempt_body i (env i)) @ [Sleep i (2 ^ i)])
                     [j..<min k (nat m - 1)])
           @ fst (attempt_body (min k (nat m - 1)) (env (min k (nat m - 1))))"
  using assms
proof (induction "nat m - j" arbitrary: j)
  case 0
  then show ?case by simp
next
  case (Suc d)
  then have jn: "j < nat m" by simp
  then have upt: "[j..<nat m] = j # [Suc j..<nat m]" by (simp add: upt_conv_Cons)
  obtain evs r where ab: "attempt_body j (env j) = (evs, r)" by (cases "attempt_body j (env j)")
  show ?case
  proof (cases "j = k")
    case True
    with Suc.prems jn have nf: "\<not> failing j (env j)" by simp
    from True jn have mn: "min k (nat m - 1) = j" by simp
    show ?thesis
    proof (cases r)
      case (Inr b)
      with ab upt show ?thesis unfolding mn by simp
    next
      case (Inl e)
      with nf ab have "\<not> is_Exception e" by (simp add: failing_def attempt_error_def)
      with Inl ab upt show ?thesis unfolding mn by simp
    qed
  next
    case False
    with Suc.prems have jk: "j < k" by simp
    with Suc.prems have f: "failing j (env j)" and sl: "Suc j < nat m \<longrightarrow> sleep_r (env j) = None"
      by auto
    from f ab obtain e where r: "r = Inl e" and e: "is_Exception e"
      by (auto simp: failing_def attempt_error_def split: sum.splits option.splits)
    show ?thesis
    proof (cases "Suc j = nat m")
      case True
      then have "int j = m - 1" by linarith
      moreover from True jk have mn: "min k (nat m - 1) = j" by simp
      ultimately show ?thesis using ab r e upt unfolding mn by simp
    next
      case F2: False
      with jn have sj: "Suc j < nat m" by simp
      then have ne: "int j \<noteq> m - 1" by linarith
      from sl sj have s: "sleep_r (env j) = None" by simp
      have d: "d = nat m - Suc j" using Suc.hyps(2) by simp
      have ih: "fst (retry_loop m env [Suc j..<nat m]) =
           concat (map (\<lambda>i. fst (attempt_body i (env i)) @ [Sleep i (2 ^ i)])
                     [Suc j..<min k (nat m - 1)])
           @ fst (attempt_body (min k (nat m - 1)) (env (min k (nat m - 1))))"
        using Suc.hyps(1) [OF d] jk sj Suc.prems by simp
      obtain evs' r' where rl: "retry_loop m env [Suc j..<nat m] = (evs', r')"
        by (cases "retry_loop m env [Suc j..<nat m]")
      have m1: "j < min k (nat m - 1)" using jk sj by simp
      then have u2: "[j..<min k (nat m - 1)] = j # [Suc j..<min k (nat m - 1)]"
        by (simp add: upt_conv_Cons)
      show ?thesis
        using ab r e upt ne s rl ih unfolding u2 by simp
    qed
  qed
qed

text \<open>
  Claim C3. Item processing makes at most \<open>max_retries\<close> attempts (default 3). When the
  first \<open>k\<close> attempts fail and the next one, if any remains, does not, the attempts made
  are \<open>0, ..., k\<close> (capped at \<open>max_retries\<close>), and the trace of the call is, in this order:
  the events of attempt 0, a sleep of exactly \<open>2 ^ 0\<close>, the events of attempt 1, a sleep of
  \<open>2 ^ 1\<close>, and so on, each failing attempt \<open>i\<close> that is not the last one allowed being
  followed by the sleep of \<open>2 ^ i\<close> and then by attempt \<open>i + 1\<close>; no sleep follows the
  last attempt made. When all \<open>max_retries\<close> attempts fail the error of the final attempt
  propagates and the worker counts the item as failed.
\<close>

theorem process_artwork_retry_backoff:
  assumes "k \<le> nat mr"
    and "\<forall>i<k. failing i (env i) \<and> (Suc i < nat mr \<longrightarrow> sleep_r (env i) = None)"
    and "k < nat mr \<longrightarrow> \<not> failing k (env k)"
  shows "default_max_retries = 3
     \<and> attempts_made (fst (process_artwork mr None env)) = [0..<min (Suc k) (nat mr)]
     \<and> sleeps (fst (process_artwork mr None env)) = map (\<lambda>i. (i, 2 ^ i)) [0..<min k (nat mr - 1)]
     \<and> (0 < nat mr \<longrightarrow>
          fst (process_artwork mr None env) =
            SemAcquire #
            concat (map (\<lambda>i. fst (attempt_body i (env i)) @ [Sleep i (2 ^ i)])
                      [0..<min k (nat mr - 1)])
            @ fst (attempt_body (min k (nat mr - 1)) (env (min k (nat mr - 1))))
            @ [SemRelease])
     \<and> (\<forall>i. attempts_made (fst (attempt_body i (env i))) = [i]
            \<and> sleeps (fst (attempt_body i (env i))) = [])
     \<and> (k = nat mr \<and> 0 < k \<longrightarrow>
          (\<exists>e. attempt_error (k - 1) (env (k - 1)) = Some e \<and> is_Exception e
             \<and> snd (process_artwork mr None env) = Inl e
             \<and> record_outcome st (snd (process_artwork mr None env)) =
                 (st\<lparr>failed := failed st + 1, total_processed := total_processed st + 1\<rparr>, None)))"
proof -
  obtain evs r where rl: "retry_loop mr env [0..<nat mr] = (evs, r)"
    by (cases "retry_loop mr env [0..<nat mr]")
  have pa: "process_artwork mr None env = (SemAcquire # evs @ [SemRelease], r)"
    by (simp add: process_artwork_def py_range_def rl)
  have pre: "sleeps evs = map (\<lambda>i. (i, 2 ^ i)) [0..<min k (nat mr - 1)]"
            "attempts_made evs = [0..<min (Suc k) (nat mr)]"
    using retry_loop_fail_prefix [of 0 k mr env] assms rl by simp_all
  have tr: "0 < nat mr \<longrightarrow> evs =
            concat (map (\<lambda>i. fst (attempt_body i (env i)) @ [Sleep i (2 ^ i)])
                      [0..<min k (nat mr - 1)])
            @ fst (attempt_body (min k (nat mr - 1)) (env (min k (nat mr - 1))))"
    using retry_loop_trace [of 0 k mr env] assms rl by simp
  have ab: "\<forall>i. attempts_made (fst (attempt_body i (env i))) = [i]
            \<and> sleeps (fst (attempt_body i (env i))) = []"
    using attempt_body_events by blast
  have last: "k = nat mr \<and> 0 < k \<longrightarrow>
          (\<exists>e. attempt_error (k - 1) (env (k - 1)) = Some e \<and> is_Exception e \<and> r = Inl e)"
    using retry_loop_last_error [of mr env] assms rl by auto
  have out: "k = nat mr \<and> 0 < k \<longrightarrow>
          (\<exists>e. attempt_error (k - 1) (env (k - 1)) = Some e \<and> is_Exception e
             \<and> r = Inl e
             \<and> record_outcome st r =
                 (st\<lparr>failed := failed st + 1, total_processed := total_processed st + 1\<rparr>, None))"
    using last by (auto simp: record_outcome_def)
  have 1: "attempts_made (fst (process_artwork mr None env)) = [0..<min (Suc k) (nat mr)]"
    and 2: "sleeps (fst (process_artwork mr None env)) =
        map (\<lambda>i. (i, 2 ^ i)) [0..<min k (nat mr - 1)]"
    using pre by (simp_all add: pa sleeps_append attempts_made_append)
  have 3: "0 < nat mr \<longrightarrow>
          fst (process_artwork mr None env) =
            SemAcquire #
            concat (map (\<lambda>i. fst (attempt_body i (env i)) @ [Sleep i (2 ^ i)])
                      [0..<min k (nat mr - 1)])
            @ fst (attempt_body (min k (nat mr - 1)) (env (min k (nat mr - 1))))
            @ [SemRelease]"
    using tr by (simp add: pa)
  have 4: "k = nat mr \<and> 0 < k \<longrightarrow>
          (\<exists>e. attempt_error (k - 1) (env (k - 1)) = Some e \<and> is_Exception e
             \<and> snd (process_artwork mr None env) = Inl e
             \<and> record_outcome st (snd (process_artwork mr None env)) =
                 (st\<lparr>failed := failed st + 1, total_processed := total_processed st + 1\<rparr>, None))"
    using out by (simp add: pa)
  have 0: "default_max_retries = 3" by (simp add: default_max_retries_def)
  from 0 1 2 3 ab 4 show ?thesis by blast
qed

lemma failing_flaky: "failing i (flaky_env n i) = (i < n)"
  by (simp add: failing_def attempt_error_def attempt_body_def flaky_env_def ok_attempt_def)

text \<open>
  Two failures then a success with the default of three attempts: the first attempt, a
  sleep of 1, the second attempt, a sleep of 2, the third attempt; one success. Three
  failures: the same two sleeps, the last error propagates, one failure.
\<close>

theorem process_artwork_retry_backoff_witness:
  "fst (process_artwork default_max_retries None (flaky_env 2)) =
     [SemAcquire, RateAcquire 0, Fetch 0, Sleep 0 1, RateAcquire 1, Fetch 1, Sleep 1 2,
      RateAcquire 2, Fetch 2, Transform 2, Upsert 2, SemRelease]
   \<and> sleeps (fst (process_artwork default_max_retries None (flaky_env 2))) = [(0, 1), (1, 2)]
   \<and> attempts_made (fst (process_artwork default_max_retries None (flaky_env 2))) = [0, 1, 2]
   \<and> snd (process_artwork default_max_retries None (flaky_env 2)) = Inr (Some True)
   \<and> sleeps (fst (process_artwork default_max_retries None (flaky_env 3))) = [(0, 1), (1, 2)]
   \<and> snd (process_artwork default_max_retries None (flaky_env 3)) = Inl TimeoutError
   \<and> failed (fst (record_outcome init_stats (snd (process_artwork default_max_retries None (flaky_env 3))))) = 1"
proof -
  have a: "(2::nat) \<le> nat default_max_retries" by (simp add: default_max_retries_def)
  have s: "\<And>n i. sleep_r (flaky_env n i) = None"
    by (simp add: flaky_env_def ok_attempt_def)
  have b: "\<forall>i<2. failing i (flaky_env 2 i) \<and> (Suc i < nat default_max_retries \<longrightarrow> sleep_r (flaky_env 2 i) = None)"
    by (simp add: failing_flaky s)
  have c: "2 < nat default_max_retries \<longrightarrow> \<not> failing 2 (flaky_env 2 2)"
    by (simp add: failing_flaky)
  have a3: "(3::nat) \<le> nat default_max_retries" by (simp add: default_max_retries_def)
  have b3: "\<forall>i<3. failing i (flaky_env 3 i) \<and> (Suc i < nat default_max_retries \<longrightarrow> sleep_r (flaky_env 3 i) = None)"
    by (simp add: failing_flaky s)
  have c3: "3 < nat default_max_retries \<longrightarrow> \<not> failing 3 (flaky_env 3 3)"
    by (simp add: failing_flaky)
  have r2: "snd (process_artwork default_max_retries None (flaky_env 2)) = Inr (Some True)"
    unfolding default_max_retries_def by code_simp
  have e3: "attempt_error 2 (flaky_env 3 2) = Some TimeoutError"
    by (simp add: attempt_error_def attempt_body_def flaky_env_def ok_attempt_def)
  have l1: "[0..<3] = [0, Suc 0, 2]" "[0..<2] = [0, Suc 0]"
    by code_simp+
  note w2 = process_artwork_retry_backoff [OF a b c, of init_stats]
  note w3 = process_artwork_retry_backoff [OF a3 b3 c3, of init_stats]
  have p: "0 < nat default_max_retries" by (simp add: default_max_retries_def)
  from w2 p have "fst (process_artwork default_max_retries None (flaky_env 2)) =
            SemAcquire #
            concat (map (\<lambda>i. fst (attempt_body i (flaky_env 2 i)) @ [Sleep i (2 ^ i)])
                      [0..<min 2 (nat default_max_retries - 1)])
            @ fst (attempt_body (min 2 (nat default_max_retries - 1))
                     (flaky_env 2 (min 2 (nat default_max_retries - 1))))
            @ [SemRelease]"
    by blast
  then have t1: "fst (process_artwork default_max_retries None (flaky_env 2)) =
     [SemAcquire, RateAcquire 0, Fetch 0, Sleep 0 1, RateAcquire 1, Fetch 1, Sleep 1 2,
      RateAcquire 2, Fetch 2, Transform 2, Upsert 2, SemRelease]"
    by (simp add: default_max_retries_def l1 attempt_body_def flaky_env_def ok_attempt_def)
  from w2 have "attempts_made (fst (process_artwork default_max_retries None (flaky_env 2))) =
        [0..<min (Suc 2) (nat default_max_retries)]
     \<and> sleeps (fst (process_artwork default_max_retries None (flaky_env 2))) =
        map (\<lambda>i. (i, 2 ^ i)) [0..<min 2 (nat default_max_retries - 1)]"
    by blast
  then have t2: "attempts_made (fst (process_artwork default_max_retries None (flaky_env 2))) = [0, 1, 2]
     \<and> sleeps (fst (process_artwork default_max_retries None (flaky_env 2))) = [(0, 1), (1, 2)]"
    by (simp add: default_max_retries_def l1)
  have k3: "3 = nat default_max_retries \<and> (0::nat) < 3" by (simp add: default_max_retries_def)
  from w3 k3 obtain e where e: "attempt_error (3 - 1) (flaky_env 3 (3 - 1)) = Some e"
    "snd (process_artwork default_max_retries None (flaky_env 3)) = Inl e"
    "record_outcome init_stats (snd (process_artwork default_max_retries None (flaky_env 3))) =
       (init_stats\<lparr>failed := failed init_stats + 1,
          total_processed := total_processed init_stats + 1\<rparr>, None)"
    by blast
  from e(1) e3 have "e = TimeoutError" by simp
  with e have t3a: "snd (process_artwork default_max_retries None (flaky_env 3)) = Inl TimeoutError"
    and t3b: "failed (fst (record_outcome init_stats
        (snd (process_artwork default_max_retries None (flaky_env 3))))) = 1"
    by (simp_all add: init_stats_def)
  from w3 have "sleeps (fst (process_artwork default_max_retries None (flaky_env 3))) =
        map (\<lambda>i. (i, 2 ^ i)) [0..<min 3 (nat default_max_retries - 1)]"
    by blast
  then have t3c: "sleeps (fst (process_artwork default_max_retries None (flaky_env 3))) = [(0, 1), (1, 2)]"
    by (simp add: default_max_retries_def l1)
  show ?thesis using t1 t2 t3a t3b t3c r2 by blast
qed

lemma save_artwork_no_sem: "\<forall>ev \<in> set (fst (save_artwork i u)). \<not> is_sem ev"
  by (cases "(i, u)" rule: save_artwork.cases) auto

lemma attempt_body_no_sem: "\<forall>ev \<in> set (fst (attempt_body i a)). \<not> is_sem ev"
  using save_artwork_no_sem [of i "upsert_r a"]
  by (auto simp: attempt_body_def split: option.splits sum.splits bool.splits prod.splits)

lemma retry_loop_no_sem: "\<forall>ev \<in> set (fst (retry_loop m env js)). \<not> is_sem ev"
proof (induction js)
  case Nil
  then show ?case by simp
next
  case (Cons j js)
  obtain evs r where ab: "attempt_body j (env j) = (evs, r)" by (cases "attempt_body j (env j)")
  have evs: "\<forall>ev \<in> set evs. \<not> is_sem ev" using attempt_body_no_sem [of j "env j"] ab by simp
  obtain evs' r' where rl: "retry_loop m env js = (evs', r')" by (cases "retry_loop m env js")
  have evs': "\<forall>ev \<in> set evs'. \<not> is_sem ev" using Cons.IH rl by simp
  show ?case using ab rl evs evs'
    by (auto split: sum.splits option.splits)
qed

lemma held_events_no_sem:
  "\<forall>ev \<in> set evs. \<not> is_sem ev \<Longrightarrow> held_events True (evs @ rest) = evs @ held_events True rest"
proof (induction evs)
  case Nil
  then show ?case by simp
next
  case (Cons ev evs)
  then show ?case by (cases ev) simp_all
qed

text \<open>
  Claim C9. When the attempt reaches the save step and the upsert raises a duplicate-key
  error, \<^verbatim>\<open>save_artwork\<close> logs a warning and returns normally, the retry loop returns
  \<^verbatim>\<open>True\<close> from this attempt without running another one, and the worker counts the item
  as successful. Any other \<^verbatim>\<open>Exception\<close> of the upsert is logged as an error and leaves
  the attempt, where the retry handler sleeps and retries, or re-raises on the last attempt.
\<close>

theorem save_artwork_duplicate_key:
  assumes "acquire_r (env i) = None" and "fetch_r (env i) = Inr True"
    and "transform_r (env i) = Inr True"
  shows "(upsert_r (env i) = Some DuplicateKeyError \<longrightarrow>
            save_artwork i (upsert_r (env i)) = ([Upsert i, LogWarning], None)
          \<and> retry_loop m env (i # rest) =
              ([RateAcquire i, Fetch i, Transform i, Upsert i, LogWarning], Inr (Some True))
          \<and> record_outcome st (snd (retry_loop m env (i # rest))) =
              (st\<lparr>successful := successful st + 1, total_processed := total_processed st + 1\<rparr>, None))
       \<and> (\<forall>e. upsert_r (env i) = Some e \<and> e \<noteq> DuplicateKeyError \<and> is_Exception e \<longrightarrow>
            save_artwork i (upsert_r (env i)) = ([Upsert i, LogError], Some e)
          \<and> attempt_body i (env i) =
              ([RateAcquire i, Fetch i, Transform i, Upsert i, LogError], Inl e)
          \<and> (int i = m - 1 \<longrightarrow> snd (retry_loop m env (i # rest)) = Inl e)
          \<and> (int i \<noteq> m - 1 \<and> sleep_r (env i) = None \<longrightarrow>
                retry_loop m env (i # rest) =
                  ([RateAcquire i, Fetch i, Transform i, Upsert i, LogError, Sleep i (2 ^ i)]
                     @ fst (retry_loop m env rest), snd (retry_loop m env rest))))"
proof (intro conjI impI allI)
  assume d: "upsert_r (env i) = Some DuplicateKeyError"
  then show "save_artwork i (upsert_r (env i)) = ([Upsert i, LogWarning], None)" by simp
  from d assms show rl: "retry_loop m env (i # rest) =
      ([RateAcquire i, Fetch i, Transform i, Upsert i, LogWarning], Inr (Some True))"
    by (simp add: attempt_body_def)
  show "record_outcome st (snd (retry_loop m env (i # rest))) =
      (st\<lparr>successful := successful st + 1, total_processed := total_processed st + 1\<rparr>, None)"
    unfolding rl by (simp add: record_outcome_def)
next
  fix e
  assume h: "upsert_r (env i) = Some e \<and> e \<noteq> DuplicateKeyError \<and> is_Exception e"
  then have sa: "save_artwork i (Some e) = ([Upsert i, LogError], Some e)"
    by (cases e) simp_all
  with h show "save_artwork i (upsert_r (env i)) = ([Upsert i, LogError], Some e)" by simp
  from h sa assms show ab: "attempt_body i (env i) =
      ([RateAcquire i, Fetch i, Transform i, Upsert i, LogError], Inl e)"
    by (simp add: attempt_body_def)
  {
    assume "int i = m - 1"
    with ab h show "snd (retry_loop m env (i # rest)) = Inl e" by simp
  }
  {
    assume "int i \<noteq> m - 1 \<and> sleep_r (env i) = None"
    with ab h show "retry_loop m env (i # rest) =
        ([RateAcquire i, Fetch i, Transform i, Upsert i, LogError, Sleep i (2 ^ i)]
           @ fst (retry_loop m env rest), snd (retry_loop m env rest))"
      by (simp split: prod.splits)
  }
qed

text \<open>
  A duplicate key on the first attempt: one attempt, one success. A write error on every
  attempt: the first attempt is followed by a sleep and a second attempt, and the third
  and last attempt re-raises.
\<close>

theorem save_artwork_duplicate_key_witness:
  "process_artwork 3 None (upsert_raises DuplicateKeyError) =
     ([SemAcquire, RateAcquire 0, Fetch 0, Transform 0, Upsert 0, LogWarning, SemRelease],
      Inr (Some True))
   \<and> successful (fst (record_outcome init_stats
        (snd (retry_loop 3 (upsert_raises DuplicateKeyError) [0, 1, 2])))) = 1
   \<and> attempt_body 0 (upsert_raises (OtherError ''write'') 0) =
       ([RateAcquire 0, Fetch 0, Transform 0, Upsert 0, LogError], Inl (OtherError ''write''))
   \<and> snd (retry_loop 3 (upsert_raises (OtherError ''write'')) [2]) = Inl (OtherError ''write'')"
proof -
  have a: "acquire_r (upsert_raises e i) = None" "fetch_r (upsert_raises e i) = Inr True"
    "transform_r (upsert_raises e i) = Inr True" "upsert_r (upsert_raises e i) = Some e" for e i
    by (simp_all add: upsert_raises_def ok_attempt_def)
  have r: "py_range 3 = [0, 1, 2]" unfolding py_range_def by code_simp
  note dup = save_artwork_duplicate_key [where env = "upsert_raises DuplicateKeyError" and i = 0
      and m = 3 and rest = "[1, 2]" and st = init_stats, OF a(1) a(2) a(3)]
  note wr0 = save_artwork_duplicate_key [where env = "upsert_raises (OtherError ''write'')"
      and i = 0 and m = 3 and rest = "[1, 2]" and st = init_stats, OF a(1) a(2) a(3)]
  note wr2 = save_artwork_duplicate_key [where env = "upsert_raises (OtherError ''write'')"
      and i = 2 and m = 3 and rest = "[]" and st = init_stats, OF a(1) a(2) a(3)]
  have d1: "retry_loop 3 (upsert_raises DuplicateKeyError) [0, 1, 2] =
      ([RateAcquire 0, Fetch 0, Transform 0, Upsert 0, LogWarning], Inr (Some True))"
    using dup a(4) by blast
  have d2: "record_outcome init_stats (snd (retry_loop 3 (upsert_raises DuplicateKeyError) [0, 1, 2])) =
      (init_stats\<lparr>successful := successful init_stats + 1,
         total_processed := total_processed init_stats + 1\<rparr>, None)"
    using dup a(4) by blast
  have p: "process_artwork 3 None (upsert_raises DuplicateKeyError) =
     ([SemAcquire, RateAcquire 0, Fetch 0, Transform 0, Upsert 0, LogWarning, SemRelease],
      Inr (Some True))"
    unfolding process_artwork_def r d1 by simp
  have s: "successful (fst (record_outcome init_stats
        (snd (retry_loop 3 (upsert_raises DuplicateKeyError) [0, 1, 2])))) = 1"
    unfolding d2 by (simp add: init_stats_def)
  have e: "OtherError ''write'' \<noteq> DuplicateKeyError \<and> is_Exception (OtherError ''write'')"
    by simp
  have o: "attempt_body 0 (upsert_raises (OtherError ''write'') 0) =
       ([RateAcquire 0, Fetch 0, Transform 0, Upsert 0, LogError], Inl (OtherError ''write''))"
    using wr0 a(4) e by blast
  have i2: "int 2 = 3 - 1" by simp
  have l: "snd (retry_loop 3 (upsert_raises (OtherError ''write'')) [2]) = Inl (OtherError ''write'')"
    using wr2 a(4) e i2 by blast
  show ?thesis using p s o l by blast
qed

text \<open>
  Claim C5, as stated, fails: the semaphore is not released at the end of an attempt, and a
  backoff sleep happens while the slot is held. With one failing fetch followed by a
  success, the sleep of one time unit lies between the only \<open>SemAcquire\<close> and the only
  \<open>SemRelease\<close>, which spans both attempts.
\<close>

theorem semaphore_held_across_sleep_counterexample:
  "fst (process_artwork 3 None (flaky_env 1)) =
     [SemAcquire, RateAcquire 0, Fetch 0, Sleep 0 1,
      RateAcquire 1, Fetch 1, Transform 1, Upsert 1, SemRelease]
   \<and> sleeps (held_events False (fst (process_artwork 3 None (flaky_env 1)))) = [(0, 1)]
   \<and> attempts_made (held_events False (fst (process_artwork 3 None (flaky_env 1)))) = [0, 1]"
proof -
  have r: "py_range 3 = [0, 1, 2]" unfolding py_range_def by code_simp
  have "fst (process_artwork 3 None (flaky_env 1)) =
     [SemAcquire, RateAcquire 0, Fetch 0, Sleep 0 1,
      RateAcquire 1, Fetch 1, Transform 1, Upsert 1, SemRelease]"
    by (simp add: process_artwork_def r flaky_env_def ok_attempt_def attempt_body_def)
  then show ?thesis by simp
qed

text \<open>
  Claim C5, amended. A call that gets a slot acquires the semaphore once, before the first
  rate-limiter token, and releases it once, as its last effect; every attempt and every
  backoff sleep of the call happens while the slot is held.
\<close>

theorem semaphore_held_for_whole_call:
  "fst (process_artwork m None env) =
     SemAcquire # held_events False (fst (process_artwork m None env)) @ [SemRelease]
   \<and> list_all (\<lambda>ev. \<not> is_sem ev) (held_events False (fst (process_artwork m None env)))
   \<and> sleeps (held_events False (fst (process_artwork m None env))) =
       sleeps (fst (process_artwork m None env))
   \<and> attempts_made (held_events False (fst (process_artwork m None env))) =
       attempts_made (fst (process_artwork m None env))"
proof -
  obtain evs r where rl: "retry_loop m env (py_range m) = (evs, r)"
    by (cases "retry_loop m env (py_range m)")
  have ns: "\<forall>ev \<in> set evs. \<not> is_sem ev" using retry_loop_no_sem [of m env "py_range m"] rl by simp
  have pa: "fst (process_artwork m None env) = SemAcquire # evs @ [SemRelease]"
    by (simp add: process_artwork_def rl)
  have he: "held_events True (evs @ [SemRelease]) = evs"
    using held_events_no_sem [OF ns, of "[SemRelease]"] by simp
  show ?thesis using ns
    by (simp add: pa he sleeps_append attempts_made_append list_all_iff)
qed

section \<open>Properties of the rate limiter\<close>

lemma separated_span:
  "separated d (a # ts) \<Longrightarrow> a + real (length ts) * d \<le> last (a # ts)"
proof (induction ts arbitrary: a)
  case Nil
  then show ?case by simp
next
  case (Cons b ts)
  then have "d \<le> b - a" and "b + real (length ts) * d \<le> last (b # ts)" by simp_all
  then show ?case by (simp add: algebra_simps)
qed

lemma acquire_seq_separated:
  assumes "rates rl name = Some (calls, period)" and "calls \<noteq> 0"
    and "last_check rl name = Some lc"
    and "\<forall>c \<in> set cs. 0 \<le> fst c \<and> 0 \<le> snd c"
  shows "\<exists>ts rl'. acquire_seq name cs clock rl = Inr (ts, rl')
           \<and> length ts = length cs
           \<and> separated (period / real_of_int calls) (lc # ts)
           \<and> (\<forall>t \<in> set ts. clock \<le> t)"
  using assms
proof (induction cs arbitrary: clock rl lc)
  case Nil
  then show ?case by simp
next
  case (Cons c cs)
  obtain gap lag where c: "c = (gap, lag)" by (cases c)
  with Cons.prems have nn: "0 \<le> gap" "0 \<le> lag" by simp_all
  define mi where "mi = period / real_of_int calls"
  define now where "now = clock + gap"
  define t where "t = now + (if now - lc < mi then mi - (now - lc) else 0) + lag"
  define rl1 where "rl1 = rl\<lparr>last_check := (last_check rl)(name \<mapsto> t)\<rparr>"
  have acq: "acquire name (clock + gap) lag rl = Inr (rl1, t)"
    using Cons.prems(1-3) by (simp add: acquire_def Let_def rl1_def t_def now_def mi_def)
  have sep: "mi \<le> t - lc" using nn by (simp add: t_def)
  have ge: "clock \<le> t" using nn by (simp add: t_def now_def)
  have r1: "rates rl1 name = Some (calls, period)" "last_check rl1 name = Some t"
    using Cons.prems(1) by (simp_all add: rl1_def)
  from Cons.prems(4) have rest: "\<forall>c \<in> set cs. 0 \<le> fst c \<and> 0 \<le> snd c" by simp
  from Cons.IH [OF r1(1) Cons.prems(2) r1(2) rest, of t]
  obtain ts rl' where ih: "acquire_seq name cs t rl1 = Inr (ts, rl')" "length ts = length cs"
    "separated mi (t # ts)" "\<forall>u \<in> set ts. t \<le> u"
    unfolding mi_def by blast
  have "acquire_seq name (c # cs) clock rl = Inr (t # ts, rl')"
    using acq ih(1) c by simp
  moreover have "separated mi (lc # t # ts)" using sep ih(3) by simp
  moreover have "\<forall>u \<in> set (t # ts). clock \<le> u" using ge ih(4) by auto
  ultimately show ?case using ih(2) unfolding mi_def by auto
qed

text \<open>
  Claim C4. For a source configured with \<open>calls \<noteq> 0\<close>, every sequence of acquisitions
  completes, and the instants recorded by consecutive acquisitions are at least
  \<open>period / calls\<close> apart, whatever the arrival times of the callers; the last of \<open>n\<close>
  acquisitions is recorded at least \<open>(n - 1) * period / calls\<close> after the first call
  started. With \<open>calls = 2\<close> and \<open>period = 1\<close>, five acquisitions take at least 2 time units.
\<close>

theorem acquire_min_interval:
  assumes "calls \<noteq> 0" and "\<forall>c \<in> set cs. 0 \<le> fst c \<and> 0 \<le> snd c"
  shows "\<exists>ts rl'. acquire_seq name cs clock (configure name calls period rl) = Inr (ts, rl')
           \<and> length ts = length cs
           \<and> separated (period / real_of_int calls) ts
           \<and> (\<forall>t \<in> set ts. clock \<le> t)
           \<and> (ts \<noteq> [] \<longrightarrow> hd ts + real (length ts - 1) * (period / real_of_int calls) \<le> last ts)
           \<and> (calls = 2 \<and> period = 1 \<and> length cs = 5 \<longrightarrow> clock + 2 \<le> last ts)"
proof -
  have r: "rates (configure name calls period rl) name = Some (calls, period)"
    "last_check (configure name calls period rl) name = Some 0"
    by (simp_all add: configure_def)
  from acquire_seq_separated [OF r(1) assms(1) r(2) assms(2), of clock]
  obtain ts rl' where a: "acquire_seq name cs clock (configure name calls period rl) = Inr (ts, rl')"
    "length ts = length cs" "separated (period / real_of_int calls) (0 # ts)" "\<forall>t \<in> set ts. clock \<le> t"
    by blast
  have s: "separated (period / real_of_int calls) ts" using a(3) by (cases ts) simp_all
  have sp: "ts \<noteq> [] \<longrightarrow> hd ts + real (length ts - 1) * (period / real_of_int calls) \<le> last ts"
  proof
    assume "ts \<noteq> []"
    then obtain u us where u: "ts = u # us" by (cases ts) auto
    with s separated_span [of "period / real_of_int calls" u us]
    show "hd ts + real (length ts - 1) * (period / real_of_int calls) \<le> last ts" by simp
  qed
  have five: "calls = 2 \<and> period = 1 \<and> length cs = 5 \<longrightarrow> clock + 2 \<le> last ts"
  proof
    assume h: "calls = 2 \<and> period = 1 \<and> length cs = 5"
    with a(2) have l: "length ts = 5" by simp
    then have ne: "ts \<noteq> []" by auto
    with a(4) have "clock \<le> hd ts" by simp
    moreover from sp ne l h have "hd ts + 2 \<le> last ts" by simp
    ultimately show "clock + 2 \<le> last ts" by simp
  qed
  from a(1) a(2) s a(4) sp five show ?thesis by blast
qed

text \<open>
  Five acquisitions in a row at two calls per time unit, starting at time 100 with no idle
  time between the calls: the recorded instants are half a unit apart and the fifth is 2
  units after the start.
\<close>

theorem acquire_min_interval_witness:
  "(\<exists>ts rl'. acquire_seq ''MetCrawler'' [(0, 0), (0, 0), (0, 0), (0, 0), (0, 0)] 100
        (configure ''MetCrawler'' 2 1 new_rate_limiter) = Inr (ts, rl')
      \<and> separated (1 / 2) ts \<and> 102 \<le> last ts)
   \<and> map_sum id fst (acquire_seq ''MetCrawler'' [(0, 0), (0, 0), (0, 0), (0, 0), (0, 0)] 100
        (configure ''MetCrawler'' 2 1 new_rate_limiter)) = Inr [100, 201 / 2, 101, 203 / 2, 102]"
proof -
  have h1: "(2::int) \<noteq> 0" by simp
  have h2: "\<forall>c \<in> set [(0::real, 0::real), (0, 0), (0, 0), (0, 0), (0, 0)]. 0 \<le> fst c \<and> 0 \<le> snd c"
    by simp
  from acquire_min_interval [OF h1 h2, of "''MetCrawler''" 100 1 new_rate_limiter]
  have "\<exists>ts rl'. acquire_seq ''MetCrawler'' [(0, 0), (0, 0), (0, 0), (0, 0), (0, 0)] 100
        (configure ''MetCrawler'' 2 1 new_rate_limiter) = Inr (ts, rl')
      \<and> separated (1 / 2) ts \<and> 102 \<le> last ts"
    by auto
  moreover have "map_sum id fst (acquire_seq ''MetCrawler'' [(0, 0), (0, 0), (0, 0), (0, 0), (0, 0)] 100
        (configure ''MetCrawler'' 2 1 new_rate_limiter)) = Inr [100, 201 / 2, 101, 203 / 2, 102]"
    by (simp add: acquire_def configure_def new_rate_limiter_def Let_def)
  ultimately show ?thesis by blast
qed

section \<open>Properties of the worker loop\<close>

lemma set_wstate_fields [simp]:
  "stats (set_wstate w st s) = stats s"
  "work_queues (set_wstate w st s) = work_queues s"
  "shutdown_event (set_wstate w st s) = shutdown_event s"
  "crawls (set_wstate w st s) = crawls s"
  "pending (set_wstate w st s) = pending s"
  "active_museums (set_wstate w st s) = active_museums s"
  "max_concurrent_requests (set_wstate w st s) = max_concurrent_requests s"
  "max_artworks_per_museum (set_wstate w st s) = max_artworks_per_museum s"
  "max_retries (set_wstate w st s) = max_retries s"
  "gather_exc (set_wstate w st s) = gather_exc s"
  "run_state (set_wstate w st s) = run_state s"
  "signal_handlers (set_wstate w st s) = signal_handlers s"
  "error_log (set_wstate w st s) = error_log s"
  "active_workers (set_wstate w st s) =
     (active_workers s)[w := (active_workers s ! w)\<lparr>w_state := st\<rparr>]"
  by (simp_all add: set_wstate_def)

lemma close_crawl_fields [simp]:
  "stats (close_crawl c r s) = stats s"
  "work_queues (close_crawl c r s) = work_queues s"
  "shutdown_event (close_crawl c r s) = shutdown_event s"
  "active_workers (close_crawl c r s) = active_workers s"
  "pending (close_crawl c r s) = pending s"
  "active_museums (close_crawl c r s) = active_museums s - 1"
  "max_concurrent_requests (close_crawl c r s) = max_concurrent_requests s"
  "max_artworks_per_museum (close_crawl c r s) = max_artworks_per_museum s"
  "max_retries (close_crawl c r s) = max_retries s"
  "run_state (close_crawl c r s) = run_state s"
  "signal_handlers (close_crawl c r s) = signal_handlers s"
  "crawls (close_crawl c r s) = (crawls s)[c := (crawls s ! c)\<lparr>c_state := Closed r\<rparr>]"
  "gather_exc (close_crawl c r s) = (case gather_exc s of None \<Rightarrow> r | Some e \<Rightarrow> Some e)"
  by (simp_all add: close_crawl_def)

lemma worker_at_Some:
  "worker_at w s = Some wk \<longleftrightarrow> w < length (active_workers s) \<and> wk = active_workers s ! w"
  by (auto simp: worker_at_def)

lemma crawl_at_Some:
  "crawl_at c s = Some ctl \<longleftrightarrow> c < length (crawls s) \<and> ctl = crawls s ! c"
  by (auto simp: crawl_at_def)

text \<open>The equations that evaluate a schedule on a concrete manager.\<close>

lemmas exec_defs =
  run_crawlers_def new_manager_def default_max_retries_def crawler_map_def
  start_crawl_def discovered_def discovery_fails_def crawl_cancelled_def
  finish_def worker_start_def dequeue_def get_task_def resume_def timeout_def task_done_def
  cancelled_def signal_def
  gather_returns_def teardown_def crawl_at_def worker_at_def set_wstate_def close_crawl_def
  loop_head_def after_item_def log_progress_def log_museum_stats_def truncate_ids_def
  py_take_def init_stats_def new_rate_limiter_def configure_def record_outcome_def
  process_artwork_def py_range_def attempt_body_def ok_env_def not_found_env_def
  ok_attempt_def Let_def eval_nat_numeral

text \<open>
  Claim C10. A cancelled worker that awaits the task of an item does not take the task's
  outcome: the event loop raises \<^verbatim>\<open>CancelledError\<close> at the await. Neither handler of the
  item's \<^verbatim>\<open>try\<close> counts it, the \<^verbatim>\<open>finally\<close> block increments \<^verbatim>\<open>total_processed\<close>, and
  the worker leaves its loop.
\<close>

theorem cancelled_in_flight_item:
  assumes "worker_at w s = Some wk" and "w_state wk = Processing artwork_id" and "w_cancel wk"
    and "stats s (w_museum wk) = Some st"
  shows "step (TaskDone w sem_r env) s = None
       \<and> record_outcome st (Inl CancelledError) =
           (st\<lparr>total_processed := total_processed st + 1\<rparr>, Some CancelledError)
       \<and> (\<exists>s'. step (Cancelled w) s = Some s'
             \<and> stats s' (w_museum wk) = Some (st\<lparr>total_processed := total_processed st + 1\<rparr>)
             \<and> successful (the (stats s' (w_museum wk))) = successful st
             \<and> failed (the (stats s' (w_museum wk))) = failed st
             \<and> worker_at w s' = Some (wk\<lparr>w_state := Exited\<rparr>)
             \<and> work_queues s' = work_queues s)"
proof -
  have td: "step (TaskDone w sem_r env) s = None"
    using assms by (simp add: task_done_def)
  have ro: "record_outcome st (Inl CancelledError) =
      (st\<lparr>total_processed := total_processed st + 1\<rparr>, Some CancelledError)"
    by (simp add: record_outcome_def)
  have w: "w < length (active_workers s)" "active_workers s ! w = wk"
    using assms(1) by (simp_all add: worker_at_Some)
  define s' where "s' = set_wstate w Exited
      (s\<lparr>stats := (stats s)(w_museum wk \<mapsto> st\<lparr>total_processed := total_processed st + 1\<rparr>)\<rparr>)"
  have c: "step (Cancelled w) s = Some s'"
    using assms ro by (simp add: cancelled_def s'_def)
  have "stats s' (w_museum wk) = Some (st\<lparr>total_processed := total_processed st + 1\<rparr>)"
    by (simp add: s'_def)
  moreover have "worker_at w s' = Some (wk\<lparr>w_state := Exited\<rparr>)"
    using w by (simp add: s'_def worker_at_def set_wstate_def)
  moreover have "work_queues s' = work_queues s" by (simp add: s'_def)
  ultimately show ?thesis using td ro c by simp
qed

text \<open>
  One Met item in flight when the interrupt arrives: the worker is cancelled, and the final
  statistics show one item processed, none successful, none failed.
\<close>

theorem cancelled_in_flight_item_witness:
  "(case run_crawlers [''met''] 1 None of
      Inl e \<Rightarrow> None
    | Inr s0 \<Rightarrow>
        (case run cancelled_run s0 of
           None \<Rightarrow> None
         | Some s \<Rightarrow>
             (case step (Cancelled 0) s of
                None \<Rightarrow> None
              | Some s' \<Rightarrow> Some (step (TaskDone 0 None ok_env) s = None, stats s' ''MetCrawler'',
                               map w_state (active_workers s')))))
   = Some (True, Some \<lparr>total_processed = 1, successful = 0, failed = 0, total_artworks = 1\<rparr>,
           [Exited])"
proof -
  define s0 where "s0 = projr (run_crawlers [''met''] 1 None)"
  define s where "s = the (run cancelled_run s0)"
  define wk where "wk = \<lparr>w_museum = ''MetCrawler'', w_state = Processing ''1'', w_cancel = True\<rparr>"
  define st where "st = \<lparr>total_processed = 0, successful = 0, failed = 0, total_artworks = 1\<rparr>"
  have s0: "run_crawlers [''met''] 1 None = Inr s0"
    unfolding s0_def by (simp add: run_crawlers_def new_manager_def)
  have s: "run cancelled_run s0 = Some s"
    unfolding s_def s0_def cancelled_run_def by (simp add: exec_defs)
  have ws: "active_workers s = [wk]"
    unfolding s_def s0_def cancelled_run_def wk_def by (simp add: exec_defs)
  have sts: "stats s (w_museum wk) = Some st"
    unfolding s_def s0_def cancelled_run_def wk_def st_def by (simp add: exec_defs)
  have wa: "worker_at 0 s = Some wk" by (simp add: worker_at_def ws)
  have m: "w_museum wk = ''MetCrawler''" "w_state wk = Processing ''1''" "w_cancel wk"
    by (simp_all add: wk_def)
  from cancelled_in_flight_item [OF wa m(2) m(3) sts, of None ok_env]
  obtain s' where c: "step (TaskDone 0 None ok_env) s = None" "step (Cancelled 0) s = Some s'"
    "stats s' ''MetCrawler'' = Some (st\<lparr>total_processed := total_processed st + 1\<rparr>)"
    "worker_at 0 s' = Some (wk\<lparr>w_state := Exited\<rparr>)"
    unfolding m(1) by blast
  have "length (active_workers s') = 1"
    using c(2) ws wa m sts by (auto simp: cancelled_def)
  then have "map w_state (active_workers s') = [Exited]"
    using c(4) by (cases "active_workers s'") (auto simp: worker_at_def)
  then show ?thesis using s0 s c by (simp add: st_def)
qed

text \<open>
  Claim C2, as stated, fails: an item that is not found is counted as successful. The run
  of one Met item whose fetch returns \<^verbatim>\<open>None\<close> ends with \<open>successful = 1\<close>.
\<close>

theorem not_found_counted_successful_counterexample:
  "process_artwork 3 None not_found_env =
     ([SemAcquire, RateAcquire 0, Fetch 0, SemRelease], Inr (Some False))
   \<and> (case run_crawlers [''met''] 1 None of
        Inl e \<Rightarrow> None
      | Inr s0 \<Rightarrow> map_option (\<lambda>s. stats s ''MetCrawler'') (run not_found_run s0))
     = Some (Some \<lparr>total_processed = 1, successful = 1, failed = 0, total_artworks = 1\<rparr>)"
proof -
  have r: "[0..<3] = [0, Suc 0, 2]" by code_simp
  show ?thesis
    unfolding not_found_run_def by (simp add: exec_defs r)
qed

text \<open>
  Claim C2, amended. An attempt whose fetch returns the not-found sentinel, or whose
  transform returns null, makes \<^verbatim>\<open>process_artwork\<close> return \<^verbatim>\<open>False\<close> at once: no further
  attempt, no sleep, no upsert. The worker does not look at the returned value: the item is
  not counted as failed, it increments \<open>successful\<close> and \<open>total_processed\<close>.
\<close>

theorem not_found_counted_successful:
  assumes "acquire_r (env i) = None"
    and "fetch_r (env i) = Inr False \<or> (fetch_r (env i) = Inr True \<and> transform_r (env i) = Inr False)"
  shows "snd (retry_loop mr env (i # rest)) = Inr (Some False)
       \<and> attempts_made (fst (retry_loop mr env (i # rest))) = [i]
       \<and> sleeps (fst (retry_loop mr env (i # rest))) = []
       \<and> filter is_upsert (fst (retry_loop mr env (i # rest))) = []
       \<and> record_outcome st (snd (retry_loop mr env (i # rest))) =
           (st\<lparr>successful := successful st + 1, total_processed := total_processed st + 1\<rparr>, None)
       \<and> (i = 0 \<and> 0 < mr \<longrightarrow> snd (process_artwork mr None env) = Inr (Some False))
       \<and> (i = 0 \<and> 0 < max_retries s \<and> worker_at w s = Some wk \<and> \<not> w_cancel wk
            \<and> w_state wk = Processing artwork_id \<and> stats s (w_museum wk) = Some st \<longrightarrow>
          (\<exists>s'. step (TaskDone w None env) s = Some s'
             \<and> stats s' (w_museum wk) =
                 Some (st\<lparr>successful := successful st + 1,
                          total_processed := total_processed st + 1\<rparr>)))"
proof -
  have rl: "retry_loop m env (i # js) = ([RateAcquire i, Fetch i], Inr (Some False))
      \<or> retry_loop m env (i # js) = ([RateAcquire i, Fetch i, Transform i], Inr (Some False))"
    for m js
    using assms by (auto simp: attempt_body_def)
  have pa: "snd (process_artwork m None env) = Inr (Some False)" if "i = 0" "0 < m" for m
  proof -
    from that have "py_range m = 0 # [Suc 0..<nat m]"
      by (simp add: py_range_def upt_conv_Cons)
    with rl [of m "[Suc 0..<nat m]"] that(1) show ?thesis
      by (auto simp: process_artwork_def simp del: retry_loop.simps)
  qed
  have ro: "record_outcome st (Inr (Some False)) =
      (st\<lparr>successful := successful st + 1, total_processed := total_processed st + 1\<rparr>, None)"
    by (simp add: record_outcome_def)
  have td: "\<exists>s'. step (TaskDone w None env) s = Some s'
             \<and> stats s' (w_museum wk) =
                 Some (st\<lparr>successful := successful st + 1,
                          total_processed := total_processed st + 1\<rparr>)"
    if "i = 0" "0 < max_retries s" "worker_at w s = Some wk" "\<not> w_cancel wk"
      "w_state wk = Processing artwork_id" "stats s (w_museum wk) = Some st"
    using that pa [of "max_retries s"] ro by (simp add: task_done_def)
  from rl [of mr rest] ro pa td show ?thesis
    by (auto simp del: retry_loop.simps)
qed

theorem not_found_counted_successful_witness:
  "snd (retry_loop 3 not_found_env [0, 1, 2]) = Inr (Some False)
   \<and> attempts_made (fst (retry_loop 3 not_found_env [0, 1, 2])) = [0]
   \<and> record_outcome init_stats (snd (retry_loop 3 not_found_env [0, 1, 2])) =
       (init_stats\<lparr>successful := successful init_stats + 1,
          total_processed := total_processed init_stats + 1\<rparr>, None)"
proof -
  have a: "acquire_r (not_found_env 0) = None"
    by (simp add: not_found_env_def ok_attempt_def)
  have f: "fetch_r (not_found_env 0) = Inr False
      \<or> (fetch_r (not_found_env 0) = Inr True \<and> transform_r (not_found_env 0) = Inr False)"
    by (simp add: not_found_env_def ok_attempt_def)
  from not_found_counted_successful [where env = not_found_env and i = 0 and mr = 3
      and rest = "[1, 2]" and st = init_stats, OF a f]
  show ?thesis by blast
qed

section \<open>Invariants of the manager\<close>

lemma run_invariant:
  assumes "\<And>a s s'. I s \<Longrightarrow> step a s = Some s' \<Longrightarrow> I s'" and "I s" and "run sched s = Some s'"
  shows "I s'"
  using assms(2,3)
proof (induction sched arbitrary: s)
  case Nil
  then show ?case by simp
next
  case (Cons a sched)
  then obtain s1 where s1: "step a s = Some s1" "run sched s1 = Some s'"
    by (auto split: option.splits)
  from assms(1) [OF Cons.prems(1) s1(1)] Cons.IH s1(2) show ?case by blast
qed

lemma run_append:
  "run (xs @ ys) s = (case run xs s of None \<Rightarrow> None | Some s' \<Rightarrow> run ys s')"
  by (induction xs arbitrary: s) (auto split: option.splits)

lemma length_filter_update:
  "i < length xs \<Longrightarrow>
   length (filter P (xs[i := y])) + (if P (xs ! i) then 1 else 0) =
   length (filter P xs) + (if P y then 1 else 0)"
proof (induction xs arbitrary: i)
  case Nil
  then show ?case by simp
next
  case (Cons x xs)
  then show ?case by (cases i) auto
qed

lemma step_config:
  assumes "step a s = Some s'"
  shows "max_concurrent_requests s' = max_concurrent_requests s
       \<and> max_artworks_per_museum s' = max_artworks_per_museum s
       \<and> max_retries s' = max_retries s"
proof (cases a)
  case StartCrawl
  with assms show ?thesis
    by (auto simp: start_crawl_def Let_def split: list.splits if_splits)
next
  case (Discovered c ids)
  with assms show ?thesis
    by (auto simp: discovered_def Let_def split: option.splits if_splits)
next
  case (DiscoveryFails c e)
  with assms show ?thesis
    by (auto simp: discovery_fails_def split: option.splits if_splits)
next
  case (WorkerStart w)
  with assms show ?thesis
    by (auto simp: worker_start_def split: option.splits if_splits)
next
  case (Dequeue w)
  with assms show ?thesis
    by (auto simp: dequeue_def split: option.splits if_splits list.splits)
next
  case (Get w)
  with assms show ?thesis
    by (auto simp: get_task_def split: option.splits if_splits list.splits)
next
  case (Resume w)
  with assms show ?thesis
    by (auto simp: resume_def split: option.splits wstate.splits)
next
  case (Timeout w)
  with assms show ?thesis
    by (auto simp: timeout_def split: option.splits if_splits)
next
  case (TaskDone w sem_r env)
  with assms show ?thesis
    by (auto simp: task_done_def split: option.splits if_splits wstate.splits prod.splits)
next
  case (Cancelled w)
  with assms show ?thesis
    by (auto simp: cancelled_def split: option.splits if_splits wstate.splits)
next
  case (CrawlCancelled c)
  with assms show ?thesis
    by (auto simp: crawl_cancelled_def split: option.splits if_splits)
next
  case (Finish c)
  with assms show ?thesis
    by (auto simp: finish_def split: option.splits if_splits)
next
  case Signal
  with assms show ?thesis
    by (auto simp: signal_def split: if_splits)
next
  case GatherReturns
  with assms show ?thesis
    by (auto simp: gather_returns_def split: option.splits if_splits)
next
  case Teardown
  with assms show ?thesis
    by (auto simp: teardown_def split: rstate.splits)
qed

lemma run_config:
  assumes "run sched s = Some s'"
  shows "max_concurrent_requests s' = max_concurrent_requests s
       \<and> max_artworks_per_museum s' = max_artworks_per_museum s
       \<and> max_retries s' = max_retries s"
  using run_invariant [where I = "\<lambda>t. max_concurrent_requests t = max_concurrent_requests s
       \<and> max_artworks_per_museum t = max_artworks_per_museum s
       \<and> max_retries t = max_retries s", OF _ _ assms] step_config
  by simp

text \<open>A started task keeps its position, its source and its number of workers.\<close>

lemma step_crawls:
  assumes "step a s = Some s'" and "c < length (crawls s)"
  shows "c < length (crawls s')
       \<and> c_museum (crawls s' ! c) = c_museum (crawls s ! c)
       \<and> c_num_workers (crawls s' ! c) = c_num_workers (crawls s ! c)"
proof (cases a)
  case StartCrawl
  with assms show ?thesis
    by (auto simp: start_crawl_def Let_def nth_append split: list.splits if_splits)
next
  case (Discovered c' ids)
  with assms show ?thesis
    by (auto simp: discovered_def Let_def crawl_at_def nth_list_update
        split: option.splits if_splits)
next
  case (DiscoveryFails c' e)
  with assms show ?thesis
    by (auto simp: discovery_fails_def crawl_at_def nth_list_update split: option.splits if_splits)
next
  case (WorkerStart w)
  with assms show ?thesis
    by (auto simp: worker_start_def split: option.splits if_splits)
next
  case (Dequeue w)
  with assms show ?thesis
    by (auto simp: dequeue_def split: option.splits if_splits list.splits)
next
  case (Get w)
  with assms show ?thesis
    by (auto simp: get_task_def split: option.splits if_splits list.splits)
next
  case (Resume w)
  with assms show ?thesis
    by (auto simp: resume_def split: option.splits wstate.splits)
next
  case (Timeout w)
  with assms show ?thesis
    by (auto simp: timeout_def split: option.splits if_splits)
next
  case (TaskDone w sem_r env)
  with assms show ?thesis
    by (auto simp: task_done_def split: option.splits if_splits wstate.splits prod.splits)
next
  case (Cancelled w)
  with assms show ?thesis
    by (auto simp: cancelled_def split: option.splits if_splits wstate.splits)
next
  case (CrawlCancelled c')
  with assms show ?thesis
    by (auto simp: crawl_cancelled_def crawl_at_def nth_list_update split: option.splits if_splits)
next
  case (Finish c')
  with assms show ?thesis
    by (auto simp: finish_def crawl_at_def nth_list_update split: option.splits if_splits)
next
  case Signal
  with assms show ?thesis
    by (auto simp: signal_def split: if_splits)
next
  case GatherReturns
  with assms show ?thesis
    by (auto simp: gather_returns_def split: option.splits if_splits)
next
  case Teardown
  with assms show ?thesis
    by (auto simp: teardown_def split: rstate.splits)
qed

lemma run_crawls:
  assumes "run sched s = Some s'" and "c < length (crawls s)"
  shows "c < length (crawls s')
       \<and> c_museum (crawls s' ! c) = c_museum (crawls s ! c)
       \<and> c_num_workers (crawls s' ! c) = c_num_workers (crawls s ! c)"
  using run_invariant [where I = "\<lambda>t. c < length (crawls t)
       \<and> c_museum (crawls t ! c) = c_museum (crawls s ! c)
       \<and> c_num_workers (crawls t ! c) = c_num_workers (crawls s ! c)", OF _ _ assms(1)]
    step_crawls assms(2)
  by simp

lemmas step_defs =
  start_crawl_def discovered_def discovery_fails_def crawl_cancelled_def finish_def
  worker_start_def dequeue_def get_task_def resume_def timeout_def task_done_def cancelled_def
  signal_def gather_returns_def teardown_def

lemmas step_splits =
  option.splits if_splits list.splits prod.splits wstate.splits rstate.splits

lemma active_sources_close:
  assumes "c < length (crawls s)" and "\<not> is_closed (crawls s ! c)"
  shows "int (active_sources (close_crawl c r s)) = int (active_sources s) - 1"
  using length_filter_update [OF assms(1), of "\<lambda>ctl. \<not> is_closed ctl"
      "(crawls s ! c)\<lparr>c_state := Closed r\<rparr>"] assms(2)
  by (simp add: active_sources_def is_closed_def)

lemma counts_ok_step:
  assumes "counts_ok s" and "step a s = Some s'"
  shows "counts_ok s'"
proof (cases a)
  case StartCrawl
  with assms show ?thesis
    by (auto simp: start_crawl_def counts_ok_def active_sources_def is_closed_def Let_def
        split: list.splits if_splits)
next
  case (Discovered c ids)
  with assms obtain ctl where c: "c < length (crawls s)" "ctl = crawls s ! c"
    "c_state ctl = Discovering"
    by (auto simp: discovered_def crawl_at_def split: option.splits if_splits)
  have "length (filter (\<lambda>ctl. \<not> is_closed ctl) ((crawls s)[c := ctl\<lparr>c_state := Draining,
          c_workers := ws, c_ids := i\<rparr>])) = length (filter (\<lambda>ctl. \<not> is_closed ctl) (crawls s))"
    for ws i
    using length_filter_update [OF c(1), of "\<lambda>ctl. \<not> is_closed ctl"
      "ctl\<lparr>c_state := Draining, c_workers := ws, c_ids := i\<rparr>"] c(2,3)
    by (simp add: is_closed_def)
  with assms Discovered c show ?thesis
    by (auto simp: discovered_def crawl_at_def counts_ok_def active_sources_def Let_def
        list_all_length nth_list_update split: option.splits if_splits)
next
  case (DiscoveryFails c e)
  with assms show ?thesis
    using active_sources_close [of c s "Some e"]
    by (auto simp: discovery_fails_def crawl_at_def counts_ok_def is_closed_def
        list_all_length nth_list_update split: option.splits if_splits)
next
  case (CrawlCancelled c)
  with assms show ?thesis
    using active_sources_close [of c s "Some CancelledError"]
    by (auto simp: crawl_cancelled_def crawl_at_def counts_ok_def is_closed_def
        list_all_length nth_list_update split: option.splits if_splits)
next
  case (Finish c)
  with assms show ?thesis
    using active_sources_close [of c s]
    by (auto simp: finish_def crawl_at_def counts_ok_def is_closed_def
        list_all_length nth_list_update split: option.splits if_splits)
next
  case Teardown
  have "filter (\<lambda>ctl. \<not> is_closed ctl) (map (\<lambda>ctl. ctl\<lparr>c_cancel := True\<rparr>) xs) =
      map (\<lambda>ctl. ctl\<lparr>c_cancel := True\<rparr>) (filter (\<lambda>ctl. \<not> is_closed ctl) xs)" for xs
    by (induction xs) (auto simp: is_closed_def)
  with assms Teardown show ?thesis
    by (auto simp: teardown_def counts_ok_def active_sources_def list_all_iff
        split: rstate.splits)
qed (use assms in \<open>auto simp: step_defs counts_ok_def active_sources_def split: step_splits\<close>)

lemma counts_ok_init:
  assumes "run_crawlers museums mcr mx = Inr s0"
  shows "counts_ok s0 \<and> max_concurrent_requests s0 = mcr \<and> 0 \<le> mcr
       \<and> max_artworks_per_museum s0 = mx \<and> max_retries s0 = default_max_retries"
  using assms
  by (auto simp: run_crawlers_def new_manager_def counts_ok_def active_sources_def
      split: if_splits)

lemma counts_ok_run:
  assumes "run_crawlers museums mcr mx = Inr s0" and "run sched s0 = Some s"
  shows "counts_ok s"
  using run_invariant [where I = counts_ok, OF _ _ assms(2)] counts_ok_step
    counts_ok_init [OF assms(1)]
  by blast

text \<open>
  Claim C6, as stated, fails for a global limit of 0: the worker count is also capped by the
  limit itself, so the source gets no worker at all where the claim says one.
\<close>

theorem worker_count_counterexample:
  "(case run_crawlers [''met''] 0 None of
      Inl e \<Rightarrow> None
    | Inr s0 \<Rightarrow>
        map_option (\<lambda>s. (map c_num_workers (crawls s), length (active_workers s), active_sources s))
          (run [StartCrawl, Discovered 0 [''1'']] s0))
   = Some ([0], 0, 1)
   \<and> max 1 ((0::int) div 1) = 1"
  by (simp add: exec_defs active_sources_def is_closed_def)

text \<open>
  Claim C6, amended. When the task of a source starts, its worker count is
  \<open>min (max 1 (limit div active)) limit\<close>, where \<open>active\<close> is the number of active sources at
  that moment, this one included; for a limit of at least 1 this is
  \<open>max 1 (limit div active)\<close>. Whatever happens later, sibling sources starting or ending
  included, the count of this source does not change, and it is the number of workers the
  source creates.
\<close>

theorem worker_count_snapshot:
  assumes "run_crawlers museums mcr mx = Inr s0" and "run pre s0 = Some s"
    and "step StartCrawl s = Some s1" and "run post s1 = Some s2"
  shows "length (crawls s) < length (crawls s2)
       \<and> active_sources s1 = active_sources s + 1
       \<and> c_num_workers (crawls s2 ! length (crawls s)) =
           min (max 1 (mcr div int (active_sources s1))) mcr
       \<and> (1 \<le> mcr \<longrightarrow>
            c_num_workers (crawls s2 ! length (crawls s)) = max 1 (mcr div int (active_sources s1)))
       \<and> (c_state (crawls s2 ! length (crawls s)) = Draining \<longrightarrow>
            length (c_workers (crawls s2 ! length (crawls s))) =
              nat (c_num_workers (crawls s2 ! length (crawls s))))"
proof -
  have ok: "counts_ok s" by (rule counts_ok_run [OF assms(1,2)])
  have cfg: "max_concurrent_requests s = mcr" "0 \<le> mcr"
    using counts_ok_init [OF assms(1)] run_config [OF assms(2)] by simp_all
  have am: "active_museums s = int (active_sources s)" using ok by (simp add: counts_ok_def)
  from assms(3) obtain name cps rest where p: "pending s = (name, cps) # rest"
    by (auto simp: start_crawl_def split: list.splits)
  have s1: "length (crawls s) < length (crawls s1)"
    "c_num_workers (crawls s1 ! length (crawls s)) =
       min (max 1 (mcr div (int (active_sources s) + 1))) mcr"
    "active_sources s1 = active_sources s + 1"
    using assms(3) p am cfg
    by (auto simp: start_crawl_def Let_def active_sources_def is_closed_def)
  have ok2: "counts_ok s2"
    using counts_ok_run [OF assms(1), of "pre @ [StartCrawl] @ post" s2] assms(2-4)
    by (simp add: run_append)
  from run_crawls [OF assms(4) s1(1)]
  have s2: "length (crawls s) < length (crawls s2)"
    "c_num_workers (crawls s2 ! length (crawls s)) = c_num_workers (crawls s1 ! length (crawls s))"
    by simp_all
  have w: "c_state (crawls s2 ! length (crawls s)) = Draining \<longrightarrow>
            length (c_workers (crawls s2 ! length (crawls s))) =
              nat (c_num_workers (crawls s2 ! length (crawls s)))"
    using ok2 s2(1) by (simp add: counts_ok_def list_all_length)
  have m: "1 \<le> mcr \<longrightarrow> min (max 1 (mcr div int (active_sources s1))) mcr =
      max 1 (mcr div int (active_sources s1))"
  proof
    assume "1 \<le> mcr"
    moreover have "mcr div int (active_sources s1) \<le> mcr"
      using cfg(2) s1(3) zdiv_mono2 [of mcr 1 "int (active_sources s1)"] by simp
    ultimately show "min (max 1 (mcr div int (active_sources s1))) mcr =
      max 1 (mcr div int (active_sources s1))" by simp
  qed
  from s1 s2 w m show ?thesis by (simp add: add.commute)
qed

text \<open>
  Met starts alone and gets all four workers; Louvre starts second and gets two; Met's
  count is still four after Louvre's discovery has failed and Louvre has ended.
\<close>

theorem worker_count_snapshot_witness:
  "(case run_crawlers [''met'', ''louvre''] 4 None of
      Inl e \<Rightarrow> None
    | Inr s0 \<Rightarrow>
        map_option (\<lambda>s. (map c_num_workers (crawls s), active_sources s))
          (run [StartCrawl, StartCrawl, DiscoveryFails 1 TimeoutError] s0))
   = Some ([4, 2], 1)
   \<and> (\<exists>s0 s1 s2. run_crawlers [''met'', ''louvre''] 4 None = Inr s0
         \<and> step StartCrawl s0 = Some s1
         \<and> run [StartCrawl, DiscoveryFails 1 TimeoutError] s1 = Some s2
         \<and> c_num_workers (crawls s2 ! 0) = max 1 (4 div int (active_sources s1)))"
proof -
  define s0 where "s0 = projr (run_crawlers [''met'', ''louvre''] 4 None)"
  define s1 where "s1 = the (step StartCrawl s0)"
  define s2 where "s2 = the (run [StartCrawl, DiscoveryFails 1 TimeoutError] s1)"
  have a: "run_crawlers [''met'', ''louvre''] 4 None = Inr s0"
    unfolding s0_def by (simp add: run_crawlers_def new_manager_def)
  have b: "run [] s0 = Some s0" by simp
  have c: "step StartCrawl s0 = Some s1"
    unfolding s1_def s0_def by (simp add: exec_defs)
  have d: "run [StartCrawl, DiscoveryFails 1 TimeoutError] s1 = Some s2"
    unfolding s2_def s1_def s0_def by (simp add: exec_defs)
  have e: "length (crawls s0) = 0" unfolding s0_def by (simp add: exec_defs)
  have f: "(1::int) \<le> 4" by simp
  from worker_count_snapshot [OF a b c d]
  have "1 \<le> (4::int) \<longrightarrow> c_num_workers (crawls s2 ! length (crawls s0)) =
      max 1 (4 div int (active_sources s1))" by blast
  with e f have "c_num_workers (crawls s2 ! 0) = max 1 (4 div int (active_sources s1))"
    by simp
  with a c d have "\<exists>s0 s1 s2. run_crawlers [''met'', ''louvre''] 4 None = Inr s0
         \<and> step StartCrawl s0 = Some s1
         \<and> run [StartCrawl, DiscoveryFails 1 TimeoutError] s1 = Some s2
         \<and> c_num_workers (crawls s2 ! 0) = max 1 (4 div int (active_sources s1))"
    by blast
  moreover have "(case run_crawlers [''met'', ''louvre''] 4 None of
      Inl e \<Rightarrow> None
    | Inr s0 \<Rightarrow>
        map_option (\<lambda>s. (map c_num_workers (crawls s), active_sources s))
          (run [StartCrawl, StartCrawl, DiscoveryFails 1 TimeoutError] s0))
   = Some ([4, 2], 1)"
    by (simp add: exec_defs active_sources_def is_closed_def)
  ultimately show ?thesis by blast
qed

section \<open>Shutdown\<close>

lemma cancel_on_shutdown_step:
  assumes "cancel_on_shutdown s" and "step a s = Some s'"
  shows "cancel_on_shutdown s' \<and> (shutdown_event s \<longrightarrow> shutdown_event s')"
proof (cases a)
  case (WorkerStart w)
  with assms show ?thesis
    by (auto simp: worker_start_def worker_at_def cancel_on_shutdown_def loop_head_def
        list_all_length nth_list_update split: option.splits if_splits)
next
  case (Dequeue w)
  with assms show ?thesis
    by (auto simp: dequeue_def worker_at_def cancel_on_shutdown_def
        list_all_length nth_list_update split: option.splits if_splits list.splits)
next
  case (Get w)
  with assms show ?thesis
    by (auto simp: get_task_def worker_at_def cancel_on_shutdown_def
        list_all_length nth_list_update split: option.splits if_splits list.splits)
next
  case (Resume w)
  with assms show ?thesis
    by (auto simp: resume_def worker_at_def cancel_on_shutdown_def
        list_all_length nth_list_update split: option.splits if_splits wstate.splits)
next
  case (Timeout w)
  with assms show ?thesis
    by (auto simp: timeout_def worker_at_def cancel_on_shutdown_def loop_head_def
        list_all_length nth_list_update split: option.splits if_splits)
next
  case (TaskDone w sem_r env)
  with assms show ?thesis
    by (auto simp: task_done_def worker_at_def cancel_on_shutdown_def loop_head_def
        after_item_def list_all_length nth_list_update
        split: option.splits if_splits wstate.splits prod.splits)
next
  case (Cancelled w)
  with assms show ?thesis
    by (auto simp: cancelled_def worker_at_def cancel_on_shutdown_def
        list_all_length nth_list_update split: option.splits if_splits wstate.splits)
next
  case (Discovered c ids)
  with assms show ?thesis
    by (auto simp: discovered_def cancel_on_shutdown_def Let_def list_all_iff
        split: option.splits if_splits)
next
  case Signal
  with assms show ?thesis
    by (auto simp: signal_def cancel_on_shutdown_def list_all_iff split: if_splits)
next
  case Teardown
  with assms show ?thesis
    by (auto simp: teardown_def cancel_on_shutdown_def list_all_iff split: rstate.splits)
qed (use assms in \<open>auto simp: step_defs cancel_on_shutdown_def Let_def split: step_splits\<close>)

lemma cancel_on_shutdown_run:
  assumes "run_crawlers museums mcr mx = Inr s0" and "run sched s0 = Some s"
  shows "cancel_on_shutdown s"
proof -
  have "cancel_on_shutdown s0"
    using assms(1)
    by (auto simp: run_crawlers_def new_manager_def cancel_on_shutdown_def split: if_splits)
  with run_invariant [where I = cancel_on_shutdown, OF _ _ assms(2)] cancel_on_shutdown_step
  show ?thesis by blast
qed

lemma dequeue_disabled:
  assumes "cancel_on_shutdown s" and "shutdown_event s"
  shows "step (Dequeue w) s = None"
  using assms
  by (auto simp: dequeue_def worker_at_def cancel_on_shutdown_def list_all_length
      split: option.splits list.splits)

text \<open>
  The parts of the loop that do what they are meant to do. Once the signal is set, in every
  state that a run reaches, no worker gets a value from \<^verbatim>\<open>queue.get()\<close> in its own task,
  a worker that reaches its loop test exits without touching the queue, and so does a
  worker whose dequeue times out; a timeout never leads to the processing of an item.
\<close>

lemma loop_test_after_signal:
  assumes "run_crawlers museums mcr mx = Inr s0" and "run sched s0 = Some s"
    and "shutdown_event s"
  shows "step (Dequeue w) s = None
       \<and> (\<forall>s'. step (WorkerStart w) s = Some s' \<longrightarrow>
            w_state (active_workers s' ! w) = Exited \<and> work_queues s' = work_queues s)
       \<and> (\<forall>s'. step (Timeout w) s = Some s' \<longrightarrow>
            w_state (active_workers s' ! w) = Exited \<and> work_queues s' = work_queues s)"
proof -
  have i: "cancel_on_shutdown s" by (rule cancel_on_shutdown_run [OF assms(1,2)])
  have a: "step (Dequeue w) s = None" by (rule dequeue_disabled [OF i assms(3)])
  have c: "\<forall>s'. step (WorkerStart w) s = Some s' \<longrightarrow>
            w_state (active_workers s' ! w) = Exited \<and> work_queues s' = work_queues s"
    using assms(3)
    by (auto simp: worker_start_def worker_at_def loop_head_def split: option.splits if_splits)
  have e: "\<forall>s'. step (Timeout w) s = Some s' \<longrightarrow>
            w_state (active_workers s' ! w) = Exited \<and> work_queues s' = work_queues s"
    using assms(3)
    by (auto simp: timeout_def worker_at_def loop_head_def split: option.splits if_splits)
  from a c e show ?thesis by blast
qed

lemma timeout_rechecks:
  assumes "step (Timeout w) t = Some t'"
  shows "w_state (active_workers t' ! w) = loop_head t \<and> \<not> holds_item (loop_head t)
       \<and> work_queues t' = work_queues t \<and> stats t' = stats t"
  using assms
  by (auto simp: timeout_def worker_at_def loop_head_def split: option.splits if_splits)

lemma timeout_rechecks_example:
  "(case run_crawlers [''met'', ''met''] 2 None of
      Inl e \<Rightarrow> None
    | Inr s0 \<Rightarrow>
        (case run polling_run s0 of
           None \<Rightarrow> None
         | Some s \<Rightarrow>
             Some (shutdown_event s, work_queues s ''MetCrawler'',
                   map w_state (active_workers s), stats s ''MetCrawler'',
                   step (Dequeue 0) s, step (Get 0) s,
                   map_option
                     (\<lambda>s'. (work_queues s' ''MetCrawler'', map w_state (active_workers s'),
                            stats s' ''MetCrawler''))
                     (step (Timeout 0) s))))
   = Some (False, Some [], [Dequeuing, Created],
           Some \<lparr>total_processed = 1, successful = 1, failed = 0, total_artworks = 0\<rparr>,
           None, None,
           Some (Some [], [Dequeuing, Created],
                 Some \<lparr>total_processed = 1, successful = 1, failed = 0, total_artworks = 0\<rparr>))"
proof -
  have r3: "[0..<3] = [0, Suc 0, 2]" by code_simp
  show ?thesis
    unfolding polling_run_def by (simp add: exec_defs r3)
qed

text \<open>
  Where \<^verbatim>\<open>wait_for\<close> awaits \<^verbatim>\<open>queue.get()\<close> in the worker's own task (Python 3.12 and
  later), no value leaves a queue after the signal.
\<close>

lemma no_take_after_shutdown:
  assumes "cancel_on_shutdown s" and "shutdown_event s" and "run post s = Some s'"
    and "filter is_get post = []"
  shows "shutdown_event s' \<and> filter takes_item post = []"
  using assms
proof (induction post arbitrary: s)
  case Nil
  then show ?case by simp
next
  case (Cons a post)
  then obtain s1 where s1: "step a s = Some s1" "run post s1 = Some s'"
    by (auto split: option.splits)
  from cancel_on_shutdown_step [OF Cons.prems(1) s1(1)] Cons.prems(2)
  have i: "cancel_on_shutdown s1" "shutdown_event s1" by simp_all
  from Cons.prems(4) have g: "\<not> is_get a" "filter is_get post = []"
    by (auto split: if_splits)
  have "\<not> takes_item a"
  proof
    assume "takes_item a"
    with g(1) obtain w where "a = Dequeue w" by (cases a) simp_all
    with dequeue_disabled [OF Cons.prems(1,2), of w] s1(1) show False by simp
  qed
  with Cons.IH [OF i s1(2) g(2)] show ?case by simp
qed

lemma direct_await_no_take_after_signal:
  assumes "run_crawlers museums mcr mx = Inr s0" and "run sched s0 = Some s"
    and "shutdown_event s" and "run post s = Some s'" and "filter is_get post = []"
  shows "shutdown_event s' \<and> filter takes_item post = []"
  using no_take_after_shutdown [OF cancel_on_shutdown_run [OF assms(1,2)] assms(3,4,5)] .

text \<open>
  Claim C7 does not hold of the code on Python before 3.12. Two Met items and two workers;
  the interrupt arrives when both workers are suspended in \<^verbatim>\<open>wait_for\<close>: the signal is set
  and both workers are cancelled while both items are in the queue. Then the tasks of
  \<^verbatim>\<open>queue.get()\<close> take the two items off the queue, \<^verbatim>\<open>wait_for\<close> returns them to the
  cancelled workers, and both items are processed and counted as successful, all of it
  after the signal. Only then do the workers reach the loop test and exit.
\<close>

theorem dequeue_after_signal:
  "(case run_crawlers [''met''] 2 None of
      Inl e \<Rightarrow> None
    | Inr s0 \<Rightarrow>
        (case run interrupted_run s0 of
           None \<Rightarrow> None
         | Some s \<Rightarrow>
             Some (shutdown_event s, work_queues s ''MetCrawler'',
                   map w_state (active_workers s), map w_cancel (active_workers s),
                   stats s ''MetCrawler'',
                   map_option
                     (\<lambda>s'. (shutdown_event s', work_queues s' ''MetCrawler'',
                            map w_state (active_workers s')))
                     (run (take 4 late_items) s),
                   map_option
                     (\<lambda>s'. (shutdown_event s', work_queues s' ''MetCrawler'',
                            map w_state (active_workers s'), stats s' ''MetCrawler''))
                     (run late_items s))))
   = Some (True, Some [Some ''a'', Some ''b'', None, None], [Dequeuing, Dequeuing],
           [True, True],
           Some \<lparr>total_processed = 0, successful = 0, failed = 0, total_artworks = 2\<rparr>,
           Some (True, Some [None, None], [Processing ''a'', Processing ''b'']),
           Some (True, Some [None, None], [Exited, Exited],
                 Some \<lparr>total_processed = 2, successful = 2, failed = 0, total_artworks = 2\<rparr>))"
proof -
  have r3: "[0..<3] = [0, Suc 0, 2]" by code_simp
  show ?thesis
    unfolding interrupted_run_def late_items_def by (simp add: exec_defs r3)
qed

section \<open>Failure of a discovery\<close>

text \<open>
  What a failure of a source's discovery does. It is logged as an error; the task of that
  source ends with the error without creating a worker and without touching the queues,
  the statistics or the tasks of the other sources; the error is set on the future of
  \<^verbatim>\<open>asyncio.gather(*tasks)\<close> in \<^verbatim>\<open>run_crawlers\<close>. If no task has failed before,
  \<^verbatim>\<open>run_crawlers\<close> can then end at once with that error, and the teardown that follows
  cancels every task.
\<close>

lemma discovery_failure_propagates:
  assumes "crawl_at c s = Some ctl" and "c_state ctl = Discovering" and "\<not> c_cancel ctl"
    and "is_Exception e"
  shows "\<exists>s'. step (DiscoveryFails c e) s = Some s'
           \<and> crawl_at c s' = Some (ctl\<lparr>c_state := Closed (Some e)\<rparr>)
           \<and> error_log s' = error_log s @ [(c_museum ctl, e)]
           \<and> active_workers s' = active_workers s
           \<and> work_queues s' = work_queues s
           \<and> stats s' = stats s
           \<and> (\<forall>c'. c' \<noteq> c \<longrightarrow> crawl_at c' s' = crawl_at c' s)
           \<and> gather_exc s' = Some (case gather_exc s of None \<Rightarrow> e | Some e0 \<Rightarrow> e0)
           \<and> (run_state s = Gathering \<and> gather_exc s = None \<longrightarrow>
                (\<exists>s1 s2. step GatherReturns s' = Some s1 \<and> run_state s1 = Returned (Some e)
                   \<and> crawls s1 = crawls s' \<and> step Teardown s1 = Some s2
                   \<and> list_all c_cancel (crawls s2) \<and> list_all w_cancel (active_workers s2)))"
proof -
  have c: "c < length (crawls s)" "crawls s ! c = ctl"
    using assms(1) by (simp_all add: crawl_at_Some)
  define s' where "s' = close_crawl c (Some e) s"
  have st: "step (DiscoveryFails c e) s = Some s'"
    using assms by (simp add: discovery_fails_def s'_def)
  have 1: "crawl_at c s' = Some (ctl\<lparr>c_state := Closed (Some e)\<rparr>)"
    using c by (simp add: s'_def crawl_at_def)
  have 2: "error_log s' = error_log s @ [(c_museum ctl, e)]"
    using c assms(4) by (simp add: s'_def close_crawl_def)
  have 3: "\<forall>c'. c' \<noteq> c \<longrightarrow> crawl_at c' s' = crawl_at c' s"
    by (simp add: s'_def crawl_at_def)
  have 4: "gather_exc s' = Some (case gather_exc s of None \<Rightarrow> e | Some e0 \<Rightarrow> e0)"
    by (simp add: s'_def split: option.splits)
  have 5: "\<exists>s1 s2. step GatherReturns s' = Some s1 \<and> run_state s1 = Returned (Some e)
                   \<and> crawls s1 = crawls s' \<and> step Teardown s1 = Some s2
                   \<and> list_all c_cancel (crawls s2) \<and> list_all w_cancel (active_workers s2)"
    if "run_state s = Gathering" "gather_exc s = None"
  proof -
    have e: "e \<noteq> CancelledError" using assms(4) by auto
    define s1 where "s1 = s'\<lparr>run_state := Returned (Some e)\<rparr>"
    have g: "step GatherReturns s' = Some s1"
      using that e by (simp add: gather_returns_def s'_def s1_def)
    have "\<exists>s2. step Teardown s1 = Some s2
        \<and> list_all c_cancel (crawls s2) \<and> list_all w_cancel (active_workers s2)"
      by (simp add: teardown_def s1_def list_all_iff)
    with g show ?thesis by (auto simp: s1_def)
  qed
  from st 1 2 3 4 5 show ?thesis by (auto simp: s'_def)
qed

text \<open>
  Claim C8 does not hold of the code in its last part: the orchestrator does not run the
  other sources to completion. When the discovery of Met fails while Louvre has one of its
  two items in flight, \<^verbatim>\<open>run_crawlers\<close> ends with Met's error and the teardown of the event
  loop cancels Louvre: its task ends with \<^verbatim>\<open>CancelledError\<close>, with an item left in its
  queue and none processed successfully. (The comment at the \<^verbatim>\<open>gather\<close> of
  \<^verbatim>\<open>run_crawlers\<close> reads ``wait for completion or shutdown'', and the two \<^verbatim>\<open>gather\<close>s of
  \<^verbatim>\<open>utils/manager.py\<close> pass \<^verbatim>\<open>return_exceptions=True\<close>.)
\<close>

theorem discovery_failure_cancels_siblings:
  "(case run_crawlers [''met'', ''louvre''] 4 None of
      Inl e \<Rightarrow> None
    | Inr s0 \<Rightarrow>
        map_option
          (\<lambda>s. (run_state s, map c_state (crawls s), error_log s,
                work_queues s ''LouvreCrawler'', stats s ''LouvreCrawler''))
          (run failed_discovery_run s0))
   = Some (Returned (Some (OtherError ''unreachable'')),
           [Closed (Some (OtherError ''unreachable'')), Closed (Some CancelledError)],
           [(''MetCrawler'', OtherError ''unreachable'')],
           Some [Some ''b'', None, None],
           Some \<lparr>total_processed = 1, successful = 0, failed = 0, total_artworks = 2\<rparr>)"
  unfolding failed_discovery_run_def by (simp add: exec_defs)

section \<open>Accounting of a source run: the invariant\<close>

lemma workers_view_cong:
  assumes "active_workers s' = active_workers s"
  shows "workers_of m s' = workers_of m s" and "live m s' = live m s"
    and "in_flight m s' = in_flight m s"
  using assms by (simp_all add: workers_of_def live_def in_flight_def)

lemma workers_of_set_wstate [simp]: "workers_of m (set_wstate w st s) = workers_of m s"
proof -
  have "w_museum ((active_workers s)[w := (active_workers s ! w)\<lparr>w_state := st\<rparr>] ! i) =
      w_museum (active_workers s ! i)" if "i < length (active_workers s)" for i
    using that by (cases "i = w") simp_all
  then show ?thesis by (auto simp: workers_of_def)
qed

lemma live_set_wstate:
  assumes "w < length (active_workers s)"
  shows "live m (set_wstate w st s)
           + (if w_museum (active_workers s ! w) = m \<and> is_live (w_state (active_workers s ! w))
              then 1 else 0) =
         live m s + (if w_museum (active_workers s ! w) = m \<and> is_live st then 1 else 0)"
  using length_filter_update [OF assms, of "\<lambda>wk. w_museum wk = m \<and> is_live (w_state wk)"
      "(active_workers s ! w)\<lparr>w_state := st\<rparr>"]
  by (simp add: live_def)

lemma in_flight_set_wstate:
  assumes "w < length (active_workers s)"
  shows "in_flight m (set_wstate w st s)
           + (if w_museum (active_workers s ! w) = m \<and> holds_item (w_state (active_workers s ! w))
              then 1 else 0) =
         in_flight m s + (if w_museum (active_workers s ! w) = m \<and> holds_item st then 1 else 0)"
  using length_filter_update [OF assms, of "\<lambda>wk. w_museum wk = m \<and> holds_item (w_state wk)"
      "(active_workers s ! w)\<lparr>w_state := st\<rparr>"]
  by (simp add: in_flight_def)

lemma holds_item_live: "holds_item st \<Longrightarrow> is_live st"
  by (cases st rule: holds_item.cases) simp_all

lemma in_flight_le_live: "in_flight m s \<le> live m s"
proof -
  have "length (filter (\<lambda>wk. w_museum wk = m \<and> holds_item (w_state wk)) xs)
      \<le> length (filter (\<lambda>wk. w_museum wk = m \<and> is_live (w_state wk)) xs)" for xs
  proof (induction xs)
    case Nil
    then show ?case by simp
  next
    case (Cons x xs)
    then show ?case using holds_item_live [of "w_state x"] by auto
  qed
  then show ?thesis by (simp add: live_def in_flight_def)
qed

lemma live_pos:
  assumes "w < length (active_workers s)" and "w_museum (active_workers s ! w) = m"
    and "is_live (w_state (active_workers s ! w))"
  shows "0 < live m s"
proof -
  have "active_workers s ! w \<in> set (filter (\<lambda>wk. w_museum wk = m \<and> is_live (w_state wk))
      (active_workers s))"
    using assms by simp
  then show ?thesis unfolding live_def by (metis length_pos_if_in_set)
qed

lemma in_flight_pos:
  assumes "w < length (active_workers s)" and "w_museum (active_workers s ! w) = m"
    and "holds_item (w_state (active_workers s ! w))"
  shows "0 < in_flight m s"
proof -
  have "active_workers s ! w \<in> set (filter (\<lambda>wk. w_museum wk = m \<and> holds_item (w_state wk))
      (active_workers s))"
    using assms by simp
  then show ?thesis unfolding in_flight_def by (metis length_pos_if_in_set)
qed

lemma live_zero:
  assumes "\<forall>i \<in> workers_of m s. w_state (active_workers s ! i) = Exited"
  shows "live m s = 0"
proof -
  have "filter (\<lambda>wk. w_museum wk = m \<and> is_live (w_state wk)) (active_workers s) = []"
    using assms by (auto simp: filter_empty_conv workers_of_def in_set_conv_nth)
  then show ?thesis by (simp add: live_def)
qed

lemma workers_of_empty:
  "workers_of m s = {} \<Longrightarrow> live m s = 0 \<and> in_flight m s = 0"
  using live_zero [of m s] in_flight_le_live [of m s] by simp

text \<open>The workers of a source after workers of source \<open>m0\<close> have been created.\<close>

lemma workers_view_append:
  assumes "active_workers s' = active_workers s @
      replicate n \<lparr>w_museum = m0, w_state = Created, w_cancel = False\<rparr>"
  shows "workers_of m s' = workers_of m s \<union>
           (if m = m0 then {length (active_workers s)..<length (active_workers s) + n} else {})"
    and "live m s' = live m s + (if m = m0 then n else 0)"
    and "in_flight m s' = in_flight m s"
proof -
  have "w_museum (active_workers s' ! i) =
      (if i < length (active_workers s) then w_museum (active_workers s ! i) else m0)"
    if "i < length (active_workers s) + n" for i
    using that assms by (simp add: nth_append)
  then show "workers_of m s' = workers_of m s \<union>
           (if m = m0 then {length (active_workers s)..<length (active_workers s) + n} else {})"
    using assms by (auto simp: workers_of_def split: if_splits)
  show "live m s' = live m s + (if m = m0 then n else 0)"
    using assms by (simp add: live_def)
  show "in_flight m s' = in_flight m s"
    using assms by (simp add: in_flight_def)
qed

lemma truncate_ids_length: "length (truncate_ids mx ids) \<le> length ids"
  by (auto simp: truncate_ids_def py_take_def nat_le_iff split: option.splits)

lemma map_update_same:
  "i < length xs \<Longrightarrow> f y = f (xs ! i) \<Longrightarrow> map f (xs[i := y]) = map f xs"
  by (simp add: map_update list_update_same_conv)

lemma counts_set_wstate_same:
  assumes "w < length (active_workers s)"
    and "is_live (w_state (active_workers s ! w)) \<longleftrightarrow> is_live st"
    and "holds_item (w_state (active_workers s ! w)) \<longleftrightarrow> holds_item st"
  shows "live m (set_wstate w st s) = live m s" and "in_flight m (set_wstate w st s) = in_flight m s"
  using live_set_wstate [OF assms(1), of m st] in_flight_set_wstate [OF assms(1), of m st] assms(2,3)
  by (auto split: if_splits)

lemma counts_set_wstate_other:
  assumes "w < length (active_workers s)" and "w_museum (active_workers s ! w) \<noteq> m"
  shows "live m (set_wstate w st s) = live m s" and "in_flight m (set_wstate w st s) = in_flight m s"
  using live_set_wstate [OF assms(1), of m st] in_flight_set_wstate [OF assms(1), of m st] assms(2)
  by auto

lemma crawl_ok_frame:
  assumes "crawl_ok s ctl"
    and "work_queues s' (c_museum ctl) = work_queues s (c_museum ctl)"
    and "stats s' (c_museum ctl) = stats s (c_museum ctl)"
    and "workers_of (c_museum ctl) s' = workers_of (c_museum ctl) s"
    and "live (c_museum ctl) s' = live (c_museum ctl) s"
    and "in_flight (c_museum ctl) s' = in_flight (c_museum ctl) s"
    and "max_artworks_per_museum s' = max_artworks_per_museum s"
    and "max_concurrent_requests s' = max_concurrent_requests s"
  shows "crawl_ok s' ctl"
  using assms by (simp add: crawl_ok_def draining_ok_def split: cstate.splits)

text \<open>A source whose task has ended, or waits for the discovery, has no worker that runs.\<close>

lemma crawl_ok_no_live_worker:
  assumes "crawl_ok s ctl" and "w < length (active_workers s)"
    and "w_museum (active_workers s ! w) = c_museum ctl"
    and "is_live (w_state (active_workers s ! w))"
  shows "c_state ctl = Draining \<or> (\<exists>r. c_state ctl = Closed r \<and> c_ids ctl = None)"
proof (cases "c_state ctl")
  case Discovering
  with assms(1) have "workers_of (c_museum ctl) s = {}" by (simp add: crawl_ok_def)
  with assms(2,3) show ?thesis by (auto simp: workers_of_def)
next
  case Draining
  then show ?thesis by simp
next
  case (Closed r)
  show ?thesis
  proof (cases "c_ids ctl")
    case None
    with Closed show ?thesis by simp
  next
    case (Some ids)
    with Closed assms(1) have "live (c_museum ctl) s = 0" by (simp add: crawl_ok_def)
    with live_pos [OF assms(2,3,4)] show ?thesis by simp
  qed
qed

lemma crawl_ok_closed_no_ids:
  "c_state ctl = Closed r \<Longrightarrow> c_ids ctl = None \<Longrightarrow> crawl_ok s ctl"
  by (simp add: crawl_ok_def)

section \<open>Accounting of a source run: the steps of a worker\<close>

lemma crawl_ok_worker_start:
  assumes "crawl_inv s" and "worker_start w s = Some s'"
  shows "crawl_inv s'"
proof -
  from assms(2) have w: "w < length (active_workers s)" "w_state (active_workers s ! w) = Created"
    and s': "s' = set_wstate w (loop_head s) s"
    by (auto simp: worker_start_def worker_at_def split: if_splits)
  from assms(1) have ns: "\<not> shutdown_event s" by (simp add: crawl_inv_def calm_def)
  then have lh: "loop_head s = Dequeuing" by (simp add: loop_head_def)
  have c: "live m s' = live m s" "in_flight m s' = in_flight m s" for m
    using counts_set_wstate_same [OF w(1), of Dequeuing m] w(2) by (simp_all add: s' lh)
  have "crawl_ok s' ctl" if "crawl_ok s ctl" for ctl
    using crawl_ok_frame [OF that, of s'] c by (simp add: s')
  moreover have "calm s'"
    using assms(1) w(1)
    by (auto simp: crawl_inv_def calm_def s' list_all_length nth_list_update)
  ultimately show ?thesis using assms(1) by (auto simp: crawl_inv_def list_all_iff s')
qed

lemma crawl_ok_timeout:
  assumes "crawl_inv s" and "timeout w s = Some s'"
  shows "crawl_inv s'"
proof -
  from assms(2) have w: "w < length (active_workers s)" "w_state (active_workers s ! w) = Dequeuing"
    and s': "s' = set_wstate w (loop_head s) s"
    by (auto simp: timeout_def worker_at_def split: if_splits)
  from assms(1) have ns: "\<not> shutdown_event s" by (simp add: crawl_inv_def calm_def)
  then have lh: "loop_head s = Dequeuing" by (simp add: loop_head_def)
  have c: "live m s' = live m s" "in_flight m s' = in_flight m s" for m
    using counts_set_wstate_same [OF w(1), of Dequeuing m] w(2) by (simp_all add: s' lh)
  have "crawl_ok s' ctl" if "crawl_ok s ctl" for ctl
    using crawl_ok_frame [OF that, of s'] c by (simp add: s')
  moreover have "calm s'"
    using assms(1) w(1)
    by (auto simp: crawl_inv_def calm_def s' list_all_length nth_list_update)
  ultimately show ?thesis using assms(1) by (auto simp: crawl_inv_def list_all_iff s')
qed

lemma crawl_ok_take:
  assumes "crawl_inv s" and "w < length (active_workers s)"
    and "w_state (active_workers s ! w) = Dequeuing"
    and "work_queues s (w_museum (active_workers s ! w)) = Some (x # q)"
    and "is_live st' \<longleftrightarrow> x \<noteq> None" and "holds_item st' \<longleftrightarrow> x \<noteq> None"
  shows "crawl_inv (set_wstate w st'
      (s\<lparr>work_queues := (work_queues s)(w_museum (active_workers s ! w) \<mapsto> q)\<rparr>))"
proof -
  define wk where "wk = active_workers s ! w"
  define mw where "mw = w_museum wk"
  define s1 where "s1 = s\<lparr>work_queues := (work_queues s)(mw \<mapsto> q)\<rparr>"
  define s' where "s' = set_wstate w st' s1"
  have w: "w < length (active_workers s)" "w_state wk = Dequeuing"
    using assms(2,3) by (simp_all add: wk_def)
  have q: "work_queues s mw = Some (x # q)" using assms(4) by (simp add: wk_def mw_def)
  have s'1: "s' = set_wstate w st' s1" by (simp add: s'_def)
  have aw1: "active_workers s1 = active_workers s" by (simp add: s1_def)
  have w1: "w < length (active_workers s1)" using w(1) aw1 by simp
  have wo: "workers_of m s' = workers_of m s" for m
    by (simp add: s'1 workers_view_cong(1) [OF aw1])
  have other: "live m s' = live m s" "in_flight m s' = in_flight m s" if "m \<noteq> mw" for m
    using counts_set_wstate_other [OF w1, of m st'] that workers_view_cong [OF aw1, of m]
    by (simp_all add: s'1 aw1 wk_def mw_def)
  have ok: "crawl_ok s' ctl" if c: "crawl_ok s ctl" for ctl
  proof (cases "c_museum ctl = mw")
    case False
    with crawl_ok_frame [OF c, of s'] other [of "c_museum ctl"] wo show ?thesis
      by (simp add: s'1 s1_def)
  next
    case True
    have nl: "is_live (w_state (active_workers s ! w))" using w(2) by (simp add: wk_def)
    from crawl_ok_no_live_worker [OF c w(1) _ nl] True
    consider "c_state ctl = Draining" | r where "c_state ctl = Closed r" "c_ids ctl = None"
      by (auto simp: mw_def wk_def)
    then show ?thesis
    proof cases
      case 2
      then show ?thesis by (rule crawl_ok_closed_no_ids)
    next
      case 1
      with c obtain ids items st
        where nw: "1 \<le> max_concurrent_requests s \<longrightarrow> 1 \<le> c_num_workers ctl"
        and cw: "set (c_workers ctl) = workers_of mw s"
        and d: "draining_ok s ctl ids items st"
        by (auto simp: crawl_ok_def True)
      from d q True have qq: "map Some items @ replicate (live mw s) None = x # q"
        by (simp add: draining_ok_def)
      have l: "live mw s' + 1 = live mw s + (if is_live st' then 1 else 0)"
        using live_set_wstate [OF w1, of mw st'] w(2) workers_view_cong(2) [OF aw1, of mw]
        by (simp add: s'1 aw1 wk_def mw_def)
      have f: "in_flight mw s' = in_flight mw s + (if holds_item st' then 1 else 0)"
        using in_flight_set_wstate [OF w1, of mw st'] w(2) workers_view_cong(3) [OF aw1, of mw]
        by (simp add: s'1 aw1 wk_def mw_def)
      have "\<exists>items'. draining_ok s' ctl ids items' st"
      proof (cases items)
        case Nil
        with qq obtain k where k: "live mw s = Suc k" "x = None" "q = replicate k None"
          by (cases "live mw s") auto
        with assms(5,6) have "\<not> is_live st'" "\<not> holds_item st'" by simp_all
        with l f k have "live mw s' = k" "in_flight mw s' = in_flight mw s" by simp_all
        with d Nil k True have "draining_ok s' ctl ids [] st"
          by (simp add: draining_ok_def s'1 s1_def)
        then show ?thesis ..
      next
        case (Cons i items')
        with qq have x: "x = Some i" "q = map Some items' @ replicate (live mw s) None" by simp_all
        with assms(5,6) have "is_live st'" "holds_item st'" by simp_all
        with l f have c': "live mw s' = live mw s" "in_flight mw s' = in_flight mw s + 1"
          by simp_all
        from d Cons True have "\<not> live mw s < nat (c_num_workers ctl)"
          by (auto simp: draining_ok_def)
        with d Cons x c' True have "draining_ok s' ctl ids items' st"
          by (simp add: draining_ok_def s'1 s1_def)
        then show ?thesis ..
      qed
      with 1 nw cw wo [of mw] True show ?thesis by (auto simp: crawl_ok_def s'1 s1_def)
    qed
  qed
  have "calm s'"
    using assms(1) w(1) wo
    by (auto simp: crawl_inv_def calm_def s'1 s1_def list_all_length nth_list_update)
  with ok assms(1) have "crawl_inv s'" by (auto simp: crawl_inv_def list_all_iff s'1 s1_def)
  then show ?thesis by (simp add: s'_def s1_def mw_def wk_def)
qed

lemma crawl_ok_dequeue:
  assumes "crawl_inv s" and "dequeue w s = Some s'"
  shows "crawl_inv s'"
proof -
  from assms(2) obtain x q where w: "w < length (active_workers s)"
      "w_state (active_workers s ! w) = Dequeuing"
    and q: "work_queues s (w_museum (active_workers s ! w)) = Some (x # q)"
    and s': "s' = set_wstate w (case x of None \<Rightarrow> Exited | Some a \<Rightarrow> Processing a)
                    (s\<lparr>work_queues := (work_queues s)(w_museum (active_workers s ! w) \<mapsto> q)\<rparr>)"
    by (auto simp: dequeue_def worker_at_def split: if_splits option.splits list.splits)
  have "is_live (case x of None \<Rightarrow> Exited | Some a \<Rightarrow> Processing a) \<longleftrightarrow> x \<noteq> None"
    "holds_item (case x of None \<Rightarrow> Exited | Some a \<Rightarrow> Processing a) \<longleftrightarrow> x \<noteq> None"
    by (cases x; simp)+
  from crawl_ok_take [OF assms(1) w q this] show ?thesis by (simp add: s')
qed

lemma crawl_ok_get_task:
  assumes "crawl_inv s" and "get_task w s = Some s'"
  shows "crawl_inv s'"
proof -
  from assms(2) obtain x q where w: "w < length (active_workers s)"
      "w_state (active_workers s ! w) = Dequeuing"
    and q: "work_queues s (w_museum (active_workers s ! w)) = Some (x # q)"
    and s': "s' = set_wstate w (Handed x)
                    (s\<lparr>work_queues := (work_queues s)(w_museum (active_workers s ! w) \<mapsto> q)\<rparr>)"
    by (auto simp: get_task_def worker_at_def split: if_splits option.splits list.splits)
  have "is_live (Handed x) \<longleftrightarrow> x \<noteq> None" "holds_item (Handed x) \<longleftrightarrow> x \<noteq> None"
    by (cases x; simp)+
  from crawl_ok_take [OF assms(1) w q this] show ?thesis by (simp add: s')
qed

lemma crawl_ok_resume:
  assumes "crawl_inv s" and "resume w s = Some s'"
  shows "crawl_inv s'"
proof -
  from assms(2) obtain x where w: "w < length (active_workers s)"
      "w_state (active_workers s ! w) = Handed x"
    and s0: "s' = s\<lparr>active_workers := (active_workers s)
               [w := (active_workers s ! w)\<lparr>w_state := (case x of None \<Rightarrow> Exited
                                                          | Some a \<Rightarrow> Processing a),
                                             w_cancel := False\<rparr>]\<rparr>"
    by (auto simp: resume_def worker_at_def split: if_splits wstate.splits)
  define st' where "st' = (case x of None \<Rightarrow> Exited | Some a \<Rightarrow> Processing a)"
  from assms(1) w(1) have nc: "\<not> w_cancel (active_workers s ! w)"
    by (simp add: crawl_inv_def calm_def list_all_length)
  then have "(active_workers s ! w)\<lparr>w_state := st', w_cancel := False\<rparr> =
      (active_workers s ! w)\<lparr>w_state := st'\<rparr>"
    by (cases "active_workers s ! w") simp
  with s0 have s': "s' = set_wstate w st' s" by (simp add: set_wstate_def st'_def)
  have e: "is_live (w_state (active_workers s ! w)) \<longleftrightarrow> is_live st'"
    "holds_item (w_state (active_workers s ! w)) \<longleftrightarrow> holds_item st'"
    using w(2) by (cases x; simp add: st'_def)+
  have c: "live m s' = live m s" "in_flight m s' = in_flight m s" for m
    using counts_set_wstate_same [OF w(1) e, of m] by (simp_all add: s')
  have "crawl_ok s' ctl" if "crawl_ok s ctl" for ctl
    using crawl_ok_frame [OF that, of s'] c by (simp add: s')
  moreover have "calm s'"
    using assms(1) w(1)
    by (auto simp: crawl_inv_def calm_def s' list_all_length nth_list_update)
  ultimately show ?thesis using assms(1) by (auto simp: crawl_inv_def list_all_iff s')
qed

lemma crawl_ok_task_done:
  assumes "crawl_inv s" and "task_done w sem_r env s = Some s'"
    and "quiet (max_retries s) (TaskDone w sem_r env)"
  shows "crawl_inv s'"
proof -
  define wk where "wk = active_workers s ! w"
  define mw where "mw = w_museum wk"
  define r where "r = snd (process_artwork (max_retries s) sem_r env)"
  from assms(2) obtain a st0 where w: "w < length (active_workers s)" "w_state wk = Processing a"
    and st0: "stats s mw = Some st0"
    by (auto simp: task_done_def worker_at_def wk_def mw_def
        split: if_splits option.splits wstate.splits)
  from assms(3) have "(\<exists>v. r = Inr v) \<or> (\<exists>e. r = Inl e \<and> is_Exception e)"
    by (cases r) (simp_all add: r_def)
  then obtain st1 where ro: "record_outcome st0 r = (st1, None)"
    and st1: "total_processed st1 = total_processed st0 + 1"
      "successful st1 + failed st1 = successful st0 + failed st0 + 1"
      "total_artworks st1 = total_artworks st0"
    by (auto simp: record_outcome_def)
  define s1 where "s1 = s\<lparr>stats := (stats s)(mw \<mapsto> st1)\<rparr>"
  define st' where "st' = after_item st1 None s"
  have s'1: "s' = set_wstate w st' s1"
    using assms(2) w st0 ro
    by (auto simp: task_done_def worker_at_def wk_def mw_def r_def s1_def st'_def
        split: if_splits)
  from assms(1) have ns: "\<not> shutdown_event s" by (simp add: crawl_inv_def calm_def)
  have aw1: "active_workers s1 = active_workers s" by (simp add: s1_def)
  have w1: "w < length (active_workers s1)" using w(1) aw1 by simp
  have wo: "workers_of m s' = workers_of m s" for m
    by (simp add: s'1 workers_view_cong(1) [OF aw1])
  have other: "live m s' = live m s" "in_flight m s' = in_flight m s" if "m \<noteq> mw" for m
    using counts_set_wstate_other [OF w1, of m st'] that workers_view_cong [OF aw1, of m]
    by (simp_all add: s'1 aw1 wk_def mw_def)
  have ok: "crawl_ok s' ctl" if c: "crawl_ok s ctl" for ctl
  proof (cases "c_museum ctl = mw")
    case False
    with crawl_ok_frame [OF c, of s'] other [of "c_museum ctl"] wo show ?thesis
      by (simp add: s'1 s1_def)
  next
    case True
    have nl: "is_live (w_state (active_workers s ! w))" using w(2) by (simp add: wk_def)
    from crawl_ok_no_live_worker [OF c w(1) _ nl] True
    consider "c_state ctl = Draining" | r where "c_state ctl = Closed r" "c_ids ctl = None"
      by (auto simp: mw_def wk_def)
    then show ?thesis
    proof cases
      case 2
      then show ?thesis by (rule crawl_ok_closed_no_ids)
    next
      case 1
      with c obtain ids items st
        where nw: "1 \<le> max_concurrent_requests s \<longrightarrow> 1 \<le> c_num_workers ctl"
        and cw: "set (c_workers ctl) = workers_of mw s"
        and d: "draining_ok s ctl ids items st"
        by (auto simp: crawl_ok_def True)
      from d st0 True have st: "st = st0" by (simp add: draining_ok_def)
      have fp: "0 < in_flight mw s"
        using in_flight_pos [OF w(1), of mw] w(2) by (simp add: wk_def mw_def)
      from d True st have sum: "total_processed st0 + int (length items) + int (in_flight mw s) =
          int (length (truncate_ids (max_artworks_per_museum s) ids))"
        and ta: "total_artworks st0 = int (length ids)"
        and tp: "total_processed st0 = successful st0 + failed st0"
        by (simp_all add: draining_ok_def)
      from d True st have tp0: "0 \<le> total_processed st0" by (simp add: draining_ok_def)
      have "total_artworks st0 \<noteq> 0"
      proof
        assume "total_artworks st0 = 0"
        with ta have "ids = []" by simp
        then have "length (truncate_ids (max_artworks_per_museum s) ids) = 0"
          using truncate_ids_length [of "max_artworks_per_museum s" ids] by simp
        with sum fp tp0 show False by simp
      qed
      then have "st' = Dequeuing"
        using ns st1(3) by (simp add: st'_def after_item_def log_progress_def loop_head_def)
      then have c': "live mw s' = live mw s" "in_flight mw s' + 1 = in_flight mw s"
        using live_set_wstate [OF w1, of mw st'] in_flight_set_wstate [OF w1, of mw st'] w(2)
          workers_view_cong [OF aw1, of mw]
        by (simp_all add: s'1 aw1 wk_def mw_def)
      have "draining_ok s' ctl ids items st1"
        using d True st st1 c' sum tp tp0
        by (simp add: draining_ok_def s'1 s1_def)
      with 1 nw cw wo [of mw] True show ?thesis by (auto simp: crawl_ok_def s'1 s1_def)
    qed
  qed
  have "calm s'"
    using assms(1) w(1) wo
    by (auto simp: crawl_inv_def calm_def s'1 s1_def list_all_length nth_list_update)
  with ok assms(1) show ?thesis by (auto simp: crawl_inv_def list_all_iff s'1 s1_def)
qed

section \<open>Accounting of a source run: the steps of a source's task\<close>

lemma crawl_ok_start_crawl:
  assumes "crawl_inv s" and "start_crawl s = Some s'"
  shows "crawl_inv s'"
proof -
  from assms(2) obtain name cps rest where p: "pending s = (name, cps) # rest"
    by (auto simp: start_crawl_def split: list.splits)
  from assms(1) have calm: "calm s" and oks: "list_all (crawl_ok s) (crawls s)"
    by (simp_all add: crawl_inv_def)
  from calm p have fresh: "name \<notin> set (map c_museum (crawls s))" "name \<notin> set (map fst rest)"
    "distinct (map c_museum (crawls s))" "distinct (map fst rest)"
    "set (map c_museum (crawls s)) \<inter> set (map fst rest) = {}"
    and nw: "workers_of name s = {}"
    by (auto simp: calm_def)
  define active where "active = active_museums s + 1"
  define num where "num = min (max 1 (max_concurrent_requests s div active)) (max_concurrent_requests s)"
  have num: "1 \<le> max_concurrent_requests s \<longrightarrow> 1 \<le> num" by (simp add: num_def)
  obtain new where new: "crawls s' = crawls s @ [new]" "c_museum new = name"
    "\<not> c_cancel new" "c_ids new = None"
    "(c_state new = Discovering \<and> c_num_workers new = num
        \<and> work_queues s' = (work_queues s)(name \<mapsto> []) \<and> stats s' = (stats s)(name \<mapsto> init_stats))
     \<or> (c_state new = Closed (Some ZeroDivisionError)
        \<and> work_queues s' = work_queues s \<and> stats s' = stats s)"
    and rest: "pending s' = rest" "active_workers s' = active_workers s"
      "shutdown_event s' = shutdown_event s" "max_concurrent_requests s' = max_concurrent_requests s"
      "max_artworks_per_museum s' = max_artworks_per_museum s"
    using assms(2) p
    by (auto simp: start_crawl_def Let_def close_crawl_def active_def num_def split: if_splits)
  have wv: "workers_of m s' = workers_of m s" "live m s' = live m s"
    "in_flight m s' = in_flight m s" for m
    using workers_view_cong [OF rest(2)] by simp_all
  have old: "crawl_ok s' ctl" if "ctl \<in> set (crawls s)" for ctl
  proof -
    from that oks have c: "crawl_ok s ctl" by (simp add: list_all_iff)
    from that fresh(1) have "c_museum ctl \<noteq> name" by auto
    with crawl_ok_frame [OF c, of s'] wv new(5) rest(4,5) show ?thesis by auto
  qed
  have "crawl_ok s' new"
    using new num nw wv(1) [of name] rest(4) by (auto simp: crawl_ok_def)
  with old new(1) have "list_all (crawl_ok s') (crawls s')" by (simp add: list_all_iff)
  moreover have "calm s'"
    using calm p new rest fresh wv(1) by (auto simp: calm_def list_all_iff)
  ultimately show ?thesis by (simp add: crawl_inv_def)
qed

lemma crawl_ok_discovered:
  assumes "crawl_inv s" and "discovered c ids s = Some s'"
  shows "crawl_inv s'"
proof -
  define ctl where "ctl = crawls s ! c"
  define m where "m = c_museum ctl"
  define n where "n = nat (c_num_workers ctl)"
  define first where "first = length (active_workers s)"
  define artwork_ids where "artwork_ids = truncate_ids (max_artworks_per_museum s) ids"
  define ctl' where "ctl' = ctl\<lparr>c_state := Draining, c_workers := [first..<first + n],
    c_ids := Some ids\<rparr>"
  from assms(1) have calm: "calm s" and oks: "list_all (crawl_ok s) (crawls s)"
    by (simp_all add: crawl_inv_def)
  from calm have ns: "\<not> shutdown_event s" by (simp add: calm_def)
  from assms(2) obtain st q where c: "c < length (crawls s)" "c_state ctl = Discovering"
    and sq: "stats s m = Some st" "work_queues s m = Some q"
    by (auto simp: discovered_def crawl_at_def ctl_def m_def split: if_splits option.splits)
  from oks c(1) have okc: "crawl_ok s ctl" by (simp add: list_all_length ctl_def)
  with c(2) sq have d: "q = []" "st = init_stats" "workers_of m s = {}" "c_ids ctl = None"
    "1 \<le> max_concurrent_requests s \<longrightarrow> 1 \<le> c_num_workers ctl"
    by (simp_all add: crawl_ok_def m_def)
  have s': "stats s' = (stats s)(m \<mapsto> init_stats\<lparr>total_artworks := int (length ids)\<rparr>)"
    "work_queues s' = (work_queues s)(m \<mapsto> map Some artwork_ids @ replicate n None)"
    "active_workers s' = active_workers s @
       replicate n \<lparr>w_museum = m, w_state = Created, w_cancel = False\<rparr>"
    "crawls s' = (crawls s)[c := ctl']"
    "pending s' = pending s" "shutdown_event s' = shutdown_event s"
    "max_concurrent_requests s' = max_concurrent_requests s"
    "max_artworks_per_museum s' = max_artworks_per_museum s"
    using assms(2) c sq d(1,2) ns
    by (auto simp: discovered_def crawl_at_def ctl_def m_def Let_def n_def first_def
        artwork_ids_def ctl'_def split: if_splits)
  note wv = workers_view_append [OF s'(3)]
  have zero: "live m s = 0" "in_flight m s = 0" using workers_of_empty [OF d(3)] by simp_all
  have dist: "distinct (map c_museum (crawls s))" using calm by (simp add: calm_def)
  have other: "c_museum (crawls s ! k) \<noteq> m" if "k < length (crawls s)" "k \<noteq> c" for k
    using dist that c(1) by (auto simp: distinct_conv_nth m_def ctl_def)
  have okc': "crawl_ok s' ctl'"
  proof -
    have "draining_ok s' ctl' ids artwork_ids (init_stats\<lparr>total_artworks := int (length ids)\<rparr>)"
      using wv(2,3) [of m] zero s'
      by (simp add: draining_ok_def ctl'_def m_def [symmetric] n_def [symmetric]
          artwork_ids_def init_stats_def)
    moreover have "set (c_workers ctl') = workers_of (c_museum ctl') s'"
      using wv(1) [of m] d(3) by (simp add: ctl'_def m_def [symmetric] first_def)
    ultimately show ?thesis
      using d(5) s'(7) by (auto simp: crawl_ok_def ctl'_def)
  qed
  have "crawl_ok s' (crawls s' ! k)" if k: "k < length (crawls s')" for k
  proof (cases "k = c")
    case True
    with okc' c(1) show ?thesis by (simp add: s'(4))
  next
    case False
    from k have k': "k < length (crawls s)" by (simp add: s'(4))
    from oks k' have "crawl_ok s (crawls s ! k)" by (simp add: list_all_length)
    from crawl_ok_frame [OF this, of s'] other [OF k' False] wv [of "c_museum (crawls s ! k)"]
    show ?thesis using False by (simp add: s')
  qed
  then have "list_all (crawl_ok s') (crawls s')" by (simp add: list_all_length)
  moreover have "calm s'"
  proof -
    have mm: "map c_museum (crawls s') = map c_museum (crawls s)"
      using map_update_same [OF c(1), of c_museum ctl'] by (simp add: s'(4) ctl'_def ctl_def)
    have "m \<in> set (map c_museum (crawls s))" using c(1) by (auto simp: m_def ctl_def)
    with calm have "\<forall>p \<in> set (pending s). fst p \<noteq> m" by (auto simp: calm_def)
    with calm wv(1) have "list_all (\<lambda>p. workers_of (fst p) s' = {}) (pending s')"
      by (auto simp: calm_def list_all_iff s'(5))
    moreover have "list_all (\<lambda>ctl. \<not> c_cancel ctl) (crawls s')"
      using calm c(1) by (auto simp: calm_def list_all_length s'(4) nth_list_update ctl'_def ctl_def)
    ultimately show ?thesis
      using calm mm by (auto simp: calm_def s' list_all_iff)
  qed
  ultimately show ?thesis by (simp add: crawl_inv_def)
qed

lemma crawl_ok_close:
  assumes "crawl_inv s" and "c < length (crawls s)" and "\<not> c_cancel (crawls s ! c)"
    and "crawl_ok s ((crawls s ! c)\<lparr>c_state := Closed r\<rparr>)"
  shows "crawl_inv (close_crawl c r s)"
proof -
  define s' where "s' = close_crawl c r s"
  have aw: "active_workers s' = active_workers s" by (simp add: s'_def)
  have f: "crawl_ok s' ctl" if "crawl_ok s ctl" for ctl
    using crawl_ok_frame [OF that, of s'] workers_view_cong [OF aw] by (simp add: s'_def)
  have "list_all (crawl_ok s') (crawls s')"
    using assms(1,2,4) f
    by (auto simp: crawl_inv_def list_all_length s'_def nth_list_update)
  moreover have "calm s'"
  proof -
    have "map c_museum (crawls s') = map c_museum (crawls s)"
      using map_update_same [OF assms(2), of c_museum "(crawls s ! c)\<lparr>c_state := Closed r\<rparr>"]
      by (simp add: s'_def)
    moreover have "list_all (\<lambda>ctl. \<not> c_cancel ctl) (crawls s')"
      using assms(1,2) by (auto simp: crawl_inv_def calm_def list_all_length s'_def nth_list_update)
    ultimately show ?thesis
      using assms(1) workers_view_cong(1) [OF aw]
      by (auto simp: crawl_inv_def calm_def s'_def)
  qed
  ultimately show ?thesis using assms(1) by (simp add: crawl_inv_def s'_def)
qed

lemma crawl_ok_discovery_fails:
  assumes "crawl_inv s" and "discovery_fails c e s = Some s'"
  shows "crawl_inv s'"
proof -
  from assms(2) have c: "c < length (crawls s)" "c_state (crawls s ! c) = Discovering"
    "\<not> c_cancel (crawls s ! c)" and s': "s' = close_crawl c (Some e) s"
    by (auto simp: discovery_fails_def crawl_at_def split: if_splits)
  from assms(1) c(1) have "crawl_ok s (crawls s ! c)" by (simp add: crawl_inv_def list_all_length)
  with c(2) have "c_ids (crawls s ! c) = None" by (simp add: crawl_ok_def)
  then have "crawl_ok s ((crawls s ! c)\<lparr>c_state := Closed (Some e)\<rparr>)"
    by (simp add: crawl_ok_def)
  from crawl_ok_close [OF assms(1) c(1,3) this] show ?thesis by (simp add: s')
qed

lemma crawl_ok_finish:
  assumes "crawl_inv s" and "finish c s = Some s'"
  shows "crawl_inv s'"
proof -
  define ctl where "ctl = crawls s ! c"
  define m where "m = c_museum ctl"
  from assms(1) have calm: "calm s" by (simp add: crawl_inv_def)
  from assms(2) have c: "c < length (crawls s)" "c_state ctl = Draining"
    and ex: "list_all (\<lambda>i. w_state (active_workers s ! i) = Exited) (c_workers ctl)"
    by (auto simp: finish_def crawl_at_def ctl_def split: if_splits)
  from calm c(1) have nc: "\<not> c_cancel ctl" by (simp add: calm_def list_all_length ctl_def)
  from assms(1) c(1) have "crawl_ok s ctl" by (simp add: crawl_inv_def list_all_length ctl_def)
  with c(2) obtain ids items st
    where nw: "1 \<le> max_concurrent_requests s \<longrightarrow> 1 \<le> c_num_workers ctl"
    and cw: "set (c_workers ctl) = workers_of m s" and d: "draining_ok s ctl ids items st"
    by (auto simp: crawl_ok_def m_def)
  from ex cw have l: "live m s = 0" by (intro live_zero) (simp add: list_all_iff)
  with in_flight_le_live [of m s] have f: "in_flight m s = 0" by simp
  from d l nw have "1 \<le> max_concurrent_requests s \<longrightarrow> items = []"
    by (auto simp: draining_ok_def m_def)
  with d l f have fin: "c_ids ctl = Some ids" "stats s m = Some st"
    "final_stats (max_concurrent_requests s) (max_artworks_per_museum s) ids st"
    by (auto simp: draining_ok_def final_stats_def m_def)
  obtain r where s': "s' = close_crawl c r s"
    using assms(2) c ex nc fin(2)
    by (auto simp: finish_def crawl_at_def ctl_def m_def split: if_splits)
  have "crawl_ok s (ctl\<lparr>c_state := Closed r\<rparr>)"
    using fin l by (simp add: crawl_ok_def m_def)
  from crawl_ok_close [OF assms(1) c(1)] nc this show ?thesis by (simp add: s' ctl_def)
qed

lemma crawl_inv_step:
  assumes "crawl_inv s" and "quiet (max_retries s) a" and "step a s = Some s'"
  shows "crawl_inv s'"
proof (cases a)
  case StartCrawl
  with assms crawl_ok_start_crawl show ?thesis by simp
next
  case (Discovered c ids)
  with assms crawl_ok_discovered show ?thesis by simp
next
  case (DiscoveryFails c e)
  with assms crawl_ok_discovery_fails show ?thesis by simp
next
  case (WorkerStart w)
  with assms crawl_ok_worker_start show ?thesis by simp
next
  case (Dequeue w)
  with assms crawl_ok_dequeue show ?thesis by simp
next
  case (Get w)
  with assms crawl_ok_get_task show ?thesis by simp
next
  case (Resume w)
  with assms crawl_ok_resume show ?thesis by simp
next
  case (Timeout w)
  with assms crawl_ok_timeout show ?thesis by simp
next
  case (TaskDone w sem_r env)
  with assms crawl_ok_task_done [of s w sem_r env s'] show ?thesis by simp
next
  case (Cancelled w)
  with assms show ?thesis
    by (auto simp: cancelled_def worker_at_def crawl_inv_def calm_def list_all_length
        split: if_splits)
next
  case (CrawlCancelled c)
  with assms show ?thesis
    by (auto simp: crawl_cancelled_def crawl_at_def crawl_inv_def calm_def list_all_length
        split: if_splits)
next
  case (Finish c)
  with assms crawl_ok_finish show ?thesis by simp
next
  case Signal
  with assms show ?thesis by simp
next
  case GatherReturns
  from assms(3) GatherReturns obtain r where s': "s' = s\<lparr>run_state := r\<rparr>"
    by (auto simp: gather_returns_def split: if_splits option.splits)
  have aw: "active_workers s' = active_workers s" by (simp add: s')
  have "crawl_ok s' ctl" if "crawl_ok s ctl" for ctl
    using crawl_ok_frame [OF that, of s'] workers_view_cong [OF aw] by (simp add: s')
  with assms(1) workers_view_cong(1) [OF aw] show ?thesis
    by (auto simp: crawl_inv_def calm_def list_all_iff s')
next
  case Teardown
  with assms show ?thesis by simp
qed

lemma crawl_inv_run:
  assumes "crawl_inv s" and "list_all (quiet (max_retries s)) sched" and "run sched s = Some s'"
  shows "crawl_inv s'"
  using assms
proof (induction sched arbitrary: s)
  case Nil
  then show ?case by simp
next
  case (Cons a sched)
  then obtain s1 where s1: "step a s = Some s1" "run sched s1 = Some s'"
    by (auto split: option.splits)
  from Cons.prems(2) have q: "quiet (max_retries s) a" "list_all (quiet (max_retries s)) sched"
    by simp_all
  from step_config [OF s1(1)] have "max_retries s1 = max_retries s" by simp
  with Cons.IH [OF crawl_inv_step [OF Cons.prems(1) q(1) s1(1)] _ s1(2)] q(2)
  show ?case by simp
qed

section \<open>Accounting of a source run: the result\<close>

lemma crawler_map_inj:
  "crawler_map x = Some (n, c) \<Longrightarrow> crawler_map y = Some (n, c') \<Longrightarrow> x = y"
  by (auto simp: crawler_map_def split: if_splits)

lemma distinct_crawlers:
  "distinct museums \<Longrightarrow> distinct (map fst (List.map_filter crawler_map museums))"
proof (induction museums)
  case Nil
  then show ?case by (simp add: List.map_filter_simps)
next
  case (Cons x xs)
  show ?case
  proof (cases "crawler_map x")
    case None
    with Cons show ?thesis by (simp add: List.map_filter_simps)
  next
    case (Some p)
    obtain n c where p: "p = (n, c)" by (cases p)
    have "n \<notin> fst ` set (List.map_filter crawler_map xs)"
    proof
      assume "n \<in> fst ` set (List.map_filter crawler_map xs)"
      then obtain c' where "(n, c') \<in> set (List.map_filter crawler_map xs)" by auto
      then obtain y where "y \<in> set xs" "crawler_map y = Some (n, c')"
        by (auto simp: List.map_filter_def)
      with crawler_map_inj [of x n c y c'] Some p Cons.prems show False by auto
    qed
    with Cons Some p show ?thesis by (simp add: List.map_filter_simps)
  qed
qed

lemma crawl_inv_init:
  assumes "run_crawlers museums mcr mx = Inr s0" and "distinct museums"
  shows "crawl_inv s0"
  using assms distinct_crawlers [OF assms(2)]
  by (auto simp: run_crawlers_def new_manager_def crawl_inv_def calm_def workers_of_def
      list_all_iff split: if_splits)

text \<open>
  A cap of 0 is not applied: the test \<^verbatim>\<open>if self.max_artworks_per_museum:\<close> is false for 0
  as it is for \<^verbatim>\<open>None\<close>, so the one discovered item is processed (the help of
  \<^verbatim>\<open>--max-artworks\<close> reads ``Maximum number of artworks to process per museum'').
\<close>

lemma cap_zero_not_applied:
  "(case run_crawlers [''met''] 1 (Some 0) of
      Inl e \<Rightarrow> None
    | Inr s0 \<Rightarrow>
        map_option (\<lambda>s. (map c_state (crawls s), map c_ids (crawls s), stats s ''MetCrawler''))
          (run one_item_run s0))
   = Some ([Closed None], [Some [''1'']],
           Some \<lparr>total_processed = 1, successful = 1, failed = 0, total_artworks = 1\<rparr>)"
  unfolding one_item_run_def by (simp add: exec_defs)

text \<open>
  Claim C1, as stated, fails. With a global limit of 0 the source has no worker: the run of
  a source with one discovered item and no cap completes with nothing processed, where the
  claim gives \<open>min 1 1 = 1\<close>.
\<close>

theorem completed_run_accounting_counterexample:
  "(case run_crawlers [''met''] 0 None of
      Inl e \<Rightarrow> None
    | Inr s0 \<Rightarrow>
        map_option (\<lambda>s. (map c_state (crawls s), map c_num_workers (crawls s),
                          map c_ids (crawls s), stats s ''MetCrawler''))
          (run [StartCrawl, Discovered 0 [''1''], Finish 0] s0))
   = Some ([Closed None], [0], [Some [''1'']],
           Some \<lparr>total_processed = 0, successful = 0, failed = 0, total_artworks = 1\<rparr>)
   \<and> min (int (length [''1''])) (int (length [''1''])) = 1"
  by (simp add: exec_defs)

text \<open>
  Claim C1, amended. In a run of \<^verbatim>\<open>run_crawlers\<close> on sources with different names and
  without cancellation, every source whose discovery returned and whose task has ended has
  \<open>total_processed = successful + failed\<close>. When the global limit is at least 1,
  \<open>total_processed\<close> is the number of discovered identifiers if no cap is configured, and
  the minimum of that number and the cap if a positive cap is configured. This holds for
  every interleaving of the tasks, with either implementation of \<^verbatim>\<open>wait_for\<close>.
\<close>

theorem completed_run_accounting:
  assumes "run_crawlers museums mcr mx = Inr s0" and "distinct museums"
    and "run sched s0 = Some s" and "list_all (quiet default_max_retries) sched"
    and "crawl_at c s = Some ctl" and "c_state ctl = Closed r" and "c_ids ctl = Some ids"
  shows "\<exists>st. stats s (c_museum ctl) = Some st
           \<and> total_processed st = successful st + failed st
           \<and> total_artworks st = int (length ids)
           \<and> (1 \<le> mcr \<and> mx = None \<longrightarrow> total_processed st = int (length ids))
           \<and> (\<forall>k. 1 \<le> mcr \<and> mx = Some k \<and> 0 < k \<longrightarrow>
                  total_processed st = min (int (length ids)) k)"
proof -
  have cfg: "max_retries s0 = default_max_retries" "max_artworks_per_museum s0 = mx"
    "max_concurrent_requests s0 = mcr"
    using counts_ok_init [OF assms(1)] by simp_all
  have "crawl_inv s"
    using crawl_inv_run [OF crawl_inv_init [OF assms(1,2)] _ assms(3)] assms(4) cfg(1) by simp
  moreover from assms(5) have c: "c < length (crawls s)" "ctl = crawls s ! c"
    by (simp_all add: crawl_at_Some)
  ultimately have "crawl_ok s ctl" by (simp add: crawl_inv_def list_all_length)
  with assms(6,7) obtain st where st: "stats s (c_museum ctl) = Some st"
    "final_stats (max_concurrent_requests s) (max_artworks_per_museum s) ids st"
    by (auto simp: crawl_ok_def)
  have mx: "max_artworks_per_museum s = mx" "max_concurrent_requests s = mcr"
    using run_config [OF assms(3)] cfg(2,3) by simp_all
  from st(2) mx have f: "total_processed st = successful st + failed st"
    "total_artworks st = int (length ids)"
    "1 \<le> mcr \<longrightarrow> total_processed st = int (length (truncate_ids mx ids))"
    by (auto simp: final_stats_def)
  have a: "1 \<le> mcr \<and> mx = None \<longrightarrow> total_processed st = int (length ids)"
    using f(3) by (auto simp: truncate_ids_def)
  have b: "\<forall>k. 1 \<le> mcr \<and> mx = Some k \<and> 0 < k \<longrightarrow>
      total_processed st = min (int (length ids)) k"
    using f(3) by (auto simp: truncate_ids_def py_take_def)
  from st(1) f(1,2) a b show ?thesis by blast
qed

text \<open>
  Two discovered items and a cap of 1: the run ends with one item processed, one
  successful, none failed, out of a total of two. Three items, two workers and no cap, with
  \<^verbatim>\<open>wait_for\<close> handing the items over in two steps: three processed, two successful, one
  failed.
\<close>

theorem completed_run_accounting_witness:
  "(case run_crawlers [''met''] 1 (Some 1) of
      Inl e \<Rightarrow> None
    | Inr s0 \<Rightarrow>
        map_option (\<lambda>s. (map c_state (crawls s), map c_ids (crawls s), stats s ''MetCrawler''))
          (run capped_run s0))
   = Some ([Closed None], [Some [''1'', ''2'']],
           Some \<lparr>total_processed = 1, successful = 1, failed = 0, total_artworks = 2\<rparr>)
   \<and> (\<exists>s0 s st. run_crawlers [''met''] 1 (Some 1) = Inr s0 \<and> run capped_run s0 = Some s
         \<and> stats s ''MetCrawler'' = Some st \<and> total_processed st = successful st + failed st
         \<and> total_processed st = min (int (length [''1'', ''2''])) 1)
   \<and> (case run_crawlers [''met''] 2 None of
        Inl e \<Rightarrow> None
      | Inr s0 \<Rightarrow>
          map_option (\<lambda>s. (map c_state (crawls s), stats s ''MetCrawler''))
            (run handed_over_run s0))
     = Some ([Closed None],
             Some \<lparr>total_processed = 3, successful = 2, failed = 1, total_artworks = 3\<rparr>)
   \<and> (\<exists>s0 s st. run_crawlers [''met''] 2 None = Inr s0 \<and> run handed_over_run s0 = Some s
         \<and> stats s ''MetCrawler'' = Some st \<and> total_processed st = successful st + failed st
         \<and> total_processed st = int (length [''1'', ''2'', ''3'']))"
proof -
  define s0 where "s0 = projr (run_crawlers [''met''] 1 (Some 1))"
  define s where "s = the (run capped_run s0)"
  define ctl where "ctl = \<lparr>c_museum = ''MetCrawler'', c_state = Closed None, c_num_workers = 1,
    c_workers = [0], c_ids = Some [''1'', ''2''], c_cancel = False\<rparr>"
  have a: "run_crawlers [''met''] 1 (Some 1) = Inr s0"
    unfolding s0_def by (simp add: run_crawlers_def new_manager_def)
  have b: "distinct [''met'']" by simp
  have d: "run capped_run s0 = Some s"
    unfolding s_def s0_def capped_run_def by (simp add: exec_defs)
  have e: "list_all (quiet default_max_retries) capped_run"
    unfolding capped_run_def by (simp add: exec_defs)
  have f: "crawl_at 0 s = Some ctl"
    unfolding s_def s0_def capped_run_def ctl_def by (simp add: exec_defs)
  have g: "c_state ctl = Closed None" "c_ids ctl = Some [''1'', ''2'']"
    "c_museum ctl = ''MetCrawler''"
    by (simp_all add: ctl_def)
  have h: "(1::int) \<le> 1 \<and> Some (1::int) = Some 1 \<and> (0::int) < 1" by simp
  from completed_run_accounting [OF a b d e f g(1,2)]
  obtain st where st: "stats s ''MetCrawler'' = Some st"
    "total_processed st = successful st + failed st"
    "\<forall>k. (1::int) \<le> 1 \<and> Some (1::int) = Some k \<and> 0 < k \<longrightarrow>
       total_processed st = min (int (length [''1'', ''2''])) k"
    unfolding g(3) by blast
  from st(3) h have "total_processed st = min (int (length [''1'', ''2''])) 1" by blast
  with a d st(1,2) have 1: "\<exists>s0 s st. run_crawlers [''met''] 1 (Some 1) = Inr s0
         \<and> run capped_run s0 = Some s
         \<and> stats s ''MetCrawler'' = Some st \<and> total_processed st = successful st + failed st
         \<and> total_processed st = min (int (length [''1'', ''2''])) 1"
    by blast
  have 2: "(case run_crawlers [''met''] 1 (Some 1) of
      Inl e \<Rightarrow> None
    | Inr s0 \<Rightarrow>
        map_option (\<lambda>s. (map c_state (crawls s), map c_ids (crawls s), stats s ''MetCrawler''))
          (run capped_run s0))
   = Some ([Closed None], [Some [''1'', ''2'']],
           Some \<lparr>total_processed = 1, successful = 1, failed = 0, total_artworks = 2\<rparr>)"
    unfolding capped_run_def by (simp add: exec_defs)
  define t0 where "t0 = projr (run_crawlers [''met''] 2 None)"
  define t where "t = the (run handed_over_run t0)"
  define ctl2 where "ctl2 = \<lparr>c_museum = ''MetCrawler'', c_state = Closed None, c_num_workers = 2,
    c_workers = [0, 1], c_ids = Some [''1'', ''2'', ''3''], c_cancel = False\<rparr>"
  have r3: "[0..<3] = [0, Suc 0, 2]" by code_simp
  have a2: "run_crawlers [''met''] 2 None = Inr t0"
    unfolding t0_def by (simp add: run_crawlers_def new_manager_def)
  have d2: "run handed_over_run t0 = Some t"
    unfolding t_def t0_def handed_over_run_def
    by (simp add: exec_defs r3 failing_env_def)
  have e2: "list_all (quiet default_max_retries) handed_over_run"
    unfolding handed_over_run_def by (simp add: exec_defs r3 failing_env_def)
  have f2: "crawl_at 0 t = Some ctl2"
    unfolding t_def t0_def handed_over_run_def ctl2_def
    by (simp add: exec_defs r3 failing_env_def)
  have g2: "c_state ctl2 = Closed None" "c_ids ctl2 = Some [''1'', ''2'', ''3'']"
    "c_museum ctl2 = ''MetCrawler''"
    by (simp_all add: ctl2_def)
  have h2: "(1::int) \<le> 2 \<and> (None :: int option) = None" by simp
  from completed_run_accounting [OF a2 b d2 e2 f2 g2(1,2)]
  obtain st2 where st2: "stats t ''MetCrawler'' = Some st2"
    "total_processed st2 = successful st2 + failed st2"
    "(1::int) \<le> 2 \<and> (None :: int option) = None \<longrightarrow>
       total_processed st2 = int (length [''1'', ''2'', ''3''])"
    unfolding g2(3) by blast
  from st2(3) h2 have "total_processed st2 = int (length [''1'', ''2'', ''3''])" by blast
  with a2 d2 st2(1,2) have 3: "\<exists>s0 s st. run_crawlers [''met''] 2 None = Inr s0
         \<and> run handed_over_run s0 = Some s
         \<and> stats s ''MetCrawler'' = Some st \<and> total_processed st = successful st + failed st
         \<and> total_processed st = int (length [''1'', ''2'', ''3''])"
    by blast
  have 4: "(case run_crawlers [''met''] 2 None of
        Inl e \<Rightarrow> None
      | Inr s0 \<Rightarrow>
          map_option (\<lambda>s. (map c_state (crawls s), stats s ''MetCrawler''))
            (run handed_over_run s0))
     = Some ([Closed None],
             Some \<lparr>total_processed = 3, successful = 2, failed = 1, total_artworks = 3\<rparr>)"
    unfolding handed_over_run_def by (simp add: exec_defs r3 failing_env_def)
  from 1 2 3 4 show ?thesis by blast
qed

end
